theory Spec2Isabelle
  imports Main "HOL-Library.Char_ord" "HOL-Library.List_Lexorder" "HOL-Library.Multiset"
begin

section \<open>Strings of the Python 2 script\<close>

text \<open>
  The script \<^verbatim>\<open>convertlogs_python2.py\<close> works on Python 2 byte strings: a filename and a
  log line are lists of bytes, compared bytewise. \<open>str.lower\<close> folds the ASCII letters
  only (the script never sets a locale), \<open>\w\<close> of an unflagged pattern is
  \<open>[a-zA-Z0-9_]\<close>, and \<open>.\<close> is every byte but the newline.
\<close>

definition newline :: char where
  "newline = CHR 0x0A"

definition is_upper :: "char \<Rightarrow> bool" where
  "is_upper c = (CHR ''A'' \<le> c \<and> c \<le> CHR ''Z'')"

definition is_lower :: "char \<Rightarrow> bool" where
  "is_lower c = (CHR ''a'' \<le> c \<and> c \<le> CHR ''z'')"

definition is_digit :: "char \<Rightarrow> bool" where
  "is_digit c = (CHR ''0'' \<le> c \<and> c \<le> CHR ''9'')"

definition is_word :: "char \<Rightarrow> bool" where
  "is_word c = (is_lower c \<or> is_upper c \<or> is_digit c \<or> c = CHR ''_'')"

definition lower_char :: "char \<Rightarrow> char" where
  "lower_char c = (if is_upper c then char_of (of_char c + (32::nat)) else c)"

definition lower :: "string \<Rightarrow> string" where
  "lower s = map lower_char s"

definition endswith :: "string \<Rightarrow> string \<Rightarrow> bool" where
  "endswith s suf = (length suf \<le> length s \<and> drop (length s - length suf) s = suf)"

text \<open>\<open>s.replace(':', '')\<close>\<close>

definition strip_colons :: "string \<Rightarrow> string" where
  "strip_colons s = filter (\<lambda>c. c \<noteq> CHR '':'') s"

text \<open>\<open>sep.join(parts)\<close>\<close>

fun join :: "string \<Rightarrow> string list \<Rightarrow> string" where
  "join sep [] = []"
| "join sep [x] = x"
| "join sep (x # y # ys) = x @ sep @ join sep (y # ys)"

text \<open>\<open>str(n)\<close> of a count\<close>

definition digit_char :: "nat \<Rightarrow> char" where
  "digit_char d = char_of (48 + d)"

fun str_nat :: "nat \<Rightarrow> string" where
  "str_nat n = (if n < 10 then [digit_char n] else str_nat (n div 10) @ [digit_char (n mod 10)])"

declare str_nat.simps [simp del]

section \<open>The regular expressions, as a backtracking matcher\<close>

text \<open>
  The four patterns of the script are sequences of single-character items, each taken
  once or repeated greedily or lazily, some of them inside a group, and the end anchor.
  \<open>rmatch\<close> is Python's \<open>re.match\<close> on such a sequence: anchored at the start, it
  tries the alternatives of every repetition in priority order (greedy: longest first,
  lazy: shortest first) and returns the first complete match, as the text each item took.
\<close>

datatype cset = AnyChar | WordDash | Digit | Lit char

fun in_cset :: "cset \<Rightarrow> char \<Rightarrow> bool" where
  "in_cset AnyChar c = (c \<noteq> newline)"
| "in_cset WordDash c = (is_word c \<or> c = CHR ''-'')"
| "in_cset Digit c = is_digit c"
| "in_cset (Lit d) c = (c = d)"

datatype quant = One | PlusGreedy | PlusLazy | StarGreedy | StarLazy

datatype piece = P quant cset | Eol

text \<open>The text an item took is put in front of the texts of the items after it.\<close>

fun took :: "string \<Rightarrow> string list option \<Rightarrow> string list option" where
  "took m None = None"
| "took m (Some ms) = Some (m # ms)"

text \<open>One more character \<open>c\<close> in front of the text the first item took.\<close>

fun longer :: "char \<Rightarrow> string list option \<Rightarrow> string list option" where
  "longer c (Some (m # ms)) = Some ((c # m) # ms)"
| "longer c _ = None"

fun orelse :: "'a option \<Rightarrow> 'a option \<Rightarrow> 'a option" where
  "orelse (Some x) _ = Some x"
| "orelse None y = y"

fun rmatch :: "piece list \<Rightarrow> string \<Rightarrow> string list option" where
  "rmatch [] s = Some []"
| "rmatch (Eol # ps) s =
     (if s = [] \<or> s = [newline] then took [] (rmatch ps s) else None)"
| "rmatch (P One cs # ps) [] = None"
| "rmatch (P One cs # ps) (c # s) =
     (if in_cset cs c then took [c] (rmatch ps s) else None)"
| "rmatch (P PlusGreedy cs # ps) [] = None"
| "rmatch (P PlusGreedy cs # ps) (c # s) =
     (if in_cset cs c then longer c (rmatch (P StarGreedy cs # ps) s) else None)"
| "rmatch (P PlusLazy cs # ps) [] = None"
| "rmatch (P PlusLazy cs # ps) (c # s) =
     (if in_cset cs c then longer c (rmatch (P StarLazy cs # ps) s) else None)"
| "rmatch (P StarGreedy cs # ps) [] = took [] (rmatch ps [])"
| "rmatch (P StarGreedy cs # ps) (c # s) =
     (if in_cset cs c
      then orelse (longer c (rmatch (P StarGreedy cs # ps) s)) (took [] (rmatch ps (c # s)))
      else took [] (rmatch ps (c # s)))"
| "rmatch (P StarLazy cs # ps) [] = took [] (rmatch ps [])"
| "rmatch (P StarLazy cs # ps) (c # s) =
     (if in_cset cs c
      then orelse (took [] (rmatch ps (c # s))) (longer c (rmatch (P StarLazy cs # ps) s))
      else took [] (rmatch ps (c # s)))"

text \<open>
  A compiled pattern: its items, each with the name of the group it is in (if any).
  A match object is the list of the named groups with their texts; \<open>m.group(name)\<close>
  raises \<open>IndexError\<close> for a name the pattern does not have.
\<close>

type_synonym regex = "(string option \<times> piece) list"

type_synonym match = "(string \<times> string) list"

fun named :: "string option list \<Rightarrow> string list \<Rightarrow> match" where
  "named (Some n # ns) (m # ms) = (n, m) # named ns ms"
| "named (None # ns) (m # ms) = named ns ms"
| "named _ _ = []"

definition re_match :: "regex \<Rightarrow> string \<Rightarrow> match option" where
  "re_match re s = map_option (named (map fst re)) (rmatch (map snd re) s)"

datatype pyexc = IndexError | OSError int | IOError int | OtherError string

definition group :: "match \<Rightarrow> string \<Rightarrow> pyexc + string" where
  "group m name = (case map_of m name of None \<Rightarrow> Inl IndexError | Some v \<Rightarrow> Inr v)"

text \<open>
  \<^verbatim>\<open>globalRe  = ^(?P<user>.+?)_(?P<network>[\w-]+?)_(?P<window>.+)_(?P<date>[0-9]+)\.log$\<close>
  \<^verbatim>\<open>networkRe = ^(?P<window>.+)_(?P<date>[0-9]+)\.log\<close>
  \<^verbatim>\<open>userRe    = ^(?P<network>[\w-]+?)_(?P<window>.+)_(?P<date>[0-9]+)\.log\<close>
\<close>

definition lit :: "char \<Rightarrow> string option \<times> piece" where
  "lit c = (None, P One (Lit c))"

definition dot_log :: regex where
  "dot_log = [lit (CHR ''.''), lit (CHR ''l''), lit (CHR ''o''), lit (CHR ''g'')]"

definition globalRe :: regex where
  "globalRe =
     [(Some ''user'', P PlusLazy AnyChar), lit (CHR ''_''),
      (Some ''network'', P PlusLazy WordDash), lit (CHR ''_''),
      (Some ''window'', P PlusGreedy AnyChar), lit (CHR ''_''),
      (Some ''date'', P PlusGreedy Digit)] @ dot_log @ [(None, Eol)]"

definition networkRe :: regex where
  "networkRe =
     [(Some ''window'', P PlusGreedy AnyChar), lit (CHR ''_''),
      (Some ''date'', P PlusGreedy Digit)] @ dot_log"

definition userRe :: regex where
  "userRe =
     [(Some ''network'', P PlusLazy WordDash), lit (CHR ''_''),
      (Some ''window'', P PlusGreedy AnyChar), lit (CHR ''_''),
      (Some ''date'', P PlusGreedy Digit)] @ dot_log"

text \<open>\<^verbatim>\<open>lineRe = ^\[(.*?)].*$\<close>, its group 1 under the name \<open>1\<close>\<close>

definition lineRe :: regex where
  "lineRe =
     [lit (CHR ''[''), (Some ''1'', P StarLazy AnyChar), lit (CHR '']''),
      (None, P StarGreedy AnyChar), (None, Eol)]"

section \<open>The input filter of the script\<close>

text \<open>\<^verbatim>\<open>logfiles = [x for x in filenames if x.endswith('log')]\<close>\<close>

definition logfiles_of :: "string list \<Rightarrow> string list" where
  "logfiles_of filenames = filter (\<lambda>x. endswith x ''log'') filenames"

section \<open>The Line Merger: \<open>sortLines\<close>\<close>

text \<open>
  \<open>f.readlines()\<close> of a file opened in text mode: the content cut after every newline,
  each line keeping its terminator; a last line without one is kept as it is.
\<close>

fun readlines :: "string \<Rightarrow> string list" where
  "readlines [] = []"
| "readlines (c # cs) =
     (if c = newline then [c] # readlines cs
      else (case readlines cs of [] \<Rightarrow> [[c]] | l # ls \<Rightarrow> (c # l) # ls))"

definition line_warning :: "string \<Rightarrow> string" where
  "line_warning line =
     ''WARNING: Line '' @ line @ '' doesn'' @ [CHR 0x27] @ ''t look like a log line and will be removed!''"

text \<open>
  The loop of \<open>sortLines\<close>: \<open>out\<close> collects the pairs (timestamp without colons, line),
  \<open>pr\<close> the lines printed.
\<close>

fun scan_lines ::
  "string list \<Rightarrow> (string \<times> string) list \<Rightarrow> string list
     \<Rightarrow> pyexc + ((string \<times> string) list \<times> string list)" where
  "scan_lines [] out pr = Inr (out, pr)"
| "scan_lines (line # lines) out pr =
     (case re_match lineRe line of
        None \<Rightarrow> scan_lines lines out (pr @ [line_warning line])
      | Some m \<Rightarrow>
          (case group m ''1'' of
             Inl e \<Rightarrow> Inl e
           | Inr g \<Rightarrow> scan_lines lines (out @ [(strip_colons g, line)]) pr))"

text \<open>
  \<open>sorted(out, key=lambda x: x[0])\<close> is a stable sort on byte strings; so is
  \<^const>\<open>sort_key\<close>, and a stable sort has one result only.
\<close>

definition sortLines :: "string list \<Rightarrow> pyexc + (string list \<times> string list)" where
  "sortLines lines =
     (case scan_lines lines [] [] of
        Inl e \<Rightarrow> Inl e
      | Inr (out, pr) \<Rightarrow> Inr (map snd (sort_key fst out), pr))"

section \<open>The Duplicate Detector: \<open>findMixedCaseDupes\<close>\<close>

text \<open>
  \<open>Counter(nameslc).items()\<close> lists every distinct lowercase name once, with its number
  of occurrences, in the order of the dictionary, which Python 2 does not specify. The
  order is the parameter \<open>ko\<close>: the keys of a dictionary filled from a list.
\<close>

type_synonym keyorder = "string list \<Rightarrow> string list"

definition keyorder_ok :: "keyorder \<Rightarrow> bool" where
  "keyorder_ok ko = (\<forall>xs. distinct (ko xs) \<and> set (ko xs) = set xs)"

definition counter_items :: "keyorder \<Rightarrow> string list \<Rightarrow> (string \<times> nat) list" where
  "counter_items ko xs = map (\<lambda>k. (k, count_list xs k)) (ko xs)"

definition dupe_warning :: "string \<Rightarrow> string" where
  "dupe_warning k = ''Warning: '' @ k @ '' has more than two occurrences. Skipping.''"

fun dupe_scan ::
  "(string \<times> nat) list \<Rightarrow> string list \<Rightarrow> string list \<Rightarrow> string list \<times> string list" where
  "dupe_scan [] dupenames pr = (dupenames, pr)"
| "dupe_scan ((k, v) # kvs) dupenames pr =
     dupe_scan kvs
       (if v = 2 then dupenames @ [k] else dupenames)
       (if v > 2 then pr @ [dupe_warning k] else pr)"

text \<open>The tuple of a duplicated name: the names of the input that lowercase to it.\<close>

definition copies_of :: "string list \<Rightarrow> string \<Rightarrow> string list" where
  "copies_of names dupename = filter (\<lambda>v. lower v = dupename) names"

definition findMixedCaseDupes :: "keyorder \<Rightarrow> string list \<Rightarrow> string list list \<times> string list" where
  "findMixedCaseDupes ko names =
     (let nameslc = map lower names;
          counts = counter_items ko nameslc;
          (dupenames, pr) = dupe_scan counts [] []
      in (map (copies_of names) dupenames, pr))"

section \<open>The filesystem, as given\<close>

text \<open>
  The library calls of the script are parameters of the model: a record of functions on
  a filesystem state \<open>'fs\<close>. A call that changes the filesystem returns the new state
  and the exception it raised, if any (a failed \<open>os.makedirs\<close> may have made some of the
  directories). \<open>fopen\<close> is \<open>open(name)\<close> for reading, giving the content of the file;
  \<open>fwrite\<close> is \<open>open(name, 'w')\<close>, the writes and \<open>close()\<close>. Reading a file and asking
  \<open>os.path.isdir\<close> leave the state as it is. \<open>os_stat\<close> observes the mode and the
  modification time of a path; the script never calls it, the properties do.
\<close>

record stat =
  st_mode :: nat
  st_mtime :: int

record 'fs os =
  fopen :: "'fs \<Rightarrow> string \<Rightarrow> pyexc + string"
  fwrite :: "'fs \<Rightarrow> string \<Rightarrow> string \<Rightarrow> 'fs \<times> pyexc option"
  copystat :: "'fs \<Rightarrow> string \<Rightarrow> string \<Rightarrow> 'fs \<times> pyexc option"
  copy2 :: "'fs \<Rightarrow> string \<Rightarrow> string \<Rightarrow> 'fs \<times> pyexc option"
  listdir :: "'fs \<Rightarrow> string \<Rightarrow> pyexc + string list"
  makedirs :: "'fs \<Rightarrow> string \<Rightarrow> 'fs \<times> pyexc option"
  isdir :: "'fs \<Rightarrow> string \<Rightarrow> bool"
  move :: "'fs \<Rightarrow> string \<Rightarrow> string \<Rightarrow> 'fs \<times> pyexc option"
  os_stat :: "'fs \<Rightarrow> string \<Rightarrow> stat option"

text \<open>
  A run ends normally or with an exception; either way it leaves a filesystem and the
  lines it printed.
\<close>

datatype 'fs outcome = Done 'fs "string list" | Raised pyexc 'fs "string list"

definition OUTDIR :: string where
  "OUTDIR = ''./output/''"

definition EEXIST :: int where
  "EEXIST = 17"

section \<open>The Line Merger: \<open>mergeAndCopyLogs\<close>\<close>

text \<open>
  The lines of the two files, one file after the other, through \<open>sortLines\<close>: what the
  body of the loop over the duplicates writes, and what it prints.
\<close>

definition merge_lines :: "string \<Rightarrow> string \<Rightarrow> pyexc + (string list \<times> string list)" where
  "merge_lines c1 c2 = sortLines (readlines c1 @ readlines c2)"

text \<open>The body of the loop over the duplicates.\<close>

definition merge_one :: "'fs os \<Rightarrow> string list \<Rightarrow> 'fs \<Rightarrow> string list \<Rightarrow> 'fs outcome" where
  "merge_one sys dupe fs out =
     (case dupe of
        [] \<Rightarrow> Raised IndexError fs out
      | f1 # rest \<Rightarrow>
          (case fopen sys fs f1 of
             Inl e \<Rightarrow> Raised e fs out
           | Inr c1 \<Rightarrow>
               (case rest of
                  [] \<Rightarrow> Raised IndexError fs out
                | f2 # _ \<Rightarrow>
                    (case fopen sys fs f2 of
                       Inl e \<Rightarrow> Raised e fs out
                     | Inr c2 \<Rightarrow>
                         (case merge_lines c1 c2 of
                            Inl e \<Rightarrow> Raised e fs out
                          | Inr (sortedLines, pr) \<Rightarrow>
                              (case fwrite sys fs (OUTDIR @ lower f1) (concat sortedLines) of
                                 (fs1, Some e) \<Rightarrow> Raised e fs1 (out @ pr)
                               | (fs1, None) \<Rightarrow>
                                   (case copystat sys fs1 f2 (OUTDIR @ lower f1) of
                                      (fs2, Some e) \<Rightarrow> Raised e fs2 (out @ pr)
                                    | (fs2, None) \<Rightarrow> Done fs2 (out @ pr))))))))"

fun merge_loop :: "'fs os \<Rightarrow> string list list \<Rightarrow> 'fs \<Rightarrow> string list \<Rightarrow> 'fs outcome" where
  "merge_loop sys [] fs out = Done fs out"
| "merge_loop sys (dupe # dupes) fs out =
     (case merge_one sys dupe fs out of
        Done fs1 out1 \<Rightarrow> merge_loop sys dupes fs1 out1
      | Raised e fs1 out1 \<Rightarrow> Raised e fs1 out1)"

text \<open>The loop over the remaining files; \<open>n\<close> is \<open>logsCopied\<close>.\<close>

fun copy_loop ::
  "'fs os \<Rightarrow> string list \<Rightarrow> string list \<Rightarrow> 'fs \<Rightarrow> nat \<Rightarrow> 'fs \<times> nat \<times> pyexc option" where
  "copy_loop sys dupeslist [] fs n = (fs, n, None)"
| "copy_loop sys dupeslist (name # names) fs n =
     (if name \<notin> set dupeslist
      then (case copy2 sys fs name (OUTDIR @ lower name) of
              (fs1, Some e) \<Rightarrow> (fs1, n, Some e)
            | (fs1, None) \<Rightarrow> copy_loop sys dupeslist names fs1 (n + 1))
      else copy_loop sys dupeslist names fs n)"

definition mergeAndCopyLogs ::
  "'fs os \<Rightarrow> string list \<Rightarrow> string list list \<Rightarrow> 'fs \<Rightarrow> string list \<Rightarrow> 'fs outcome" where
  "mergeAndCopyLogs sys logfiles dupes fs out =
     (case merge_loop sys dupes fs (out @ [''Merging logs...'']) of
        Raised e fs1 out1 \<Rightarrow> Raised e fs1 out1
      | Done fs1 out1 \<Rightarrow>
          (let out2 = out1 @ [str_nat (length dupes) @ '' logs merged.''];
               dupeslist = concat dupes;
               out3 = out2 @ [''Copying remaining logs...'']
           in (case copy_loop sys dupeslist logfiles fs1 0 of
                 (fs2, n, Some e) \<Rightarrow> Raised e fs2 out3
               | (fs2, n, None) \<Rightarrow> Done fs2 (out3 @ [str_nat n @ '' files copied.'']))))"

section \<open>The Hierarchy Rewriter: \<open>convertToHierarchy\<close>\<close>

definition globalDirFormat :: "string \<Rightarrow> string \<Rightarrow> string \<Rightarrow> string" where
  "globalDirFormat user network window = user @ ''/'' @ network @ ''/'' @ window"

definition userDirFormat :: "string \<Rightarrow> string \<Rightarrow> string \<Rightarrow> string" where
  "userDirFormat user network window = network @ ''/'' @ window"

definition networkDirFormat :: "string \<Rightarrow> string \<Rightarrow> string \<Rightarrow> string" where
  "networkDirFormat user network window = window"

definition myRe :: "string \<Rightarrow> regex" where
  "myRe logType =
     (if logType = ''N'' then networkRe else if logType = ''U'' then userRe else globalRe)"

definition myFormat :: "string \<Rightarrow> string \<Rightarrow> string \<Rightarrow> string \<Rightarrow> string" where
  "myFormat logType =
     (if logType = ''N'' then networkDirFormat
      else if logType = ''U'' then userDirFormat else globalDirFormat)"

text \<open>
  What the body of the loop decides for one name before it touches the filesystem: to
  skip it with a warning, or to move it to a file in a directory.
\<close>

datatype plan = Skip string | Relocate string string

definition nomatch_warning :: "string \<Rightarrow> string" where
  "nomatch_warning logfile = ''warning: '' @ logfile @ '' did not match! It will be skipped.''"

definition nowindow_warning :: "string \<Rightarrow> string" where
  "nowindow_warning logfile =
     ''warning: '' @ logfile @ '' doesn'' @ [CHR 0x27]
       @ ''t have a window. That makes no sense. It'' @ [CHR 0x27] @ ''s being skipped.''"

definition nodate_warning :: "string \<Rightarrow> string" where
  "nodate_warning logfile =
     ''warning: '' @ logfile @ '' doesn'' @ [CHR 0x27]
       @ ''t have a date. That makes no sense. It'' @ [CHR 0x27] @ ''s being skipped.''"

definition group_or_empty :: "match \<Rightarrow> string \<Rightarrow> string" where
  "group_or_empty m name = (case group m name of Inl e \<Rightarrow> [] | Inr v \<Rightarrow> v)"

definition hier_plan :: "string \<Rightarrow> string \<Rightarrow> plan" where
  "hier_plan logType logfile =
     (case re_match (myRe logType) logfile of
        None \<Rightarrow> Skip (nomatch_warning logfile)
      | Some m \<Rightarrow>
          (let user = group_or_empty m ''user'';
               network = group_or_empty m ''network''
           in (case group m ''window'' of
                 Inl e \<Rightarrow> Skip (nowindow_warning logfile)
               | Inr window \<Rightarrow>
                   (case group m ''date'' of
                      Inl e \<Rightarrow> Skip (nodate_warning logfile)
                    | Inr date \<Rightarrow>
                        (let ymd = [take 4 date, take 2 (drop 4 date), take 2 (drop 6 date)];
                             date' = join ''-'' ymd;
                             path = OUTDIR @ myFormat logType user network window
                         in Relocate path (path @ ''/'' @ date' @ ''.log''))))))"

definition do_move :: "'fs os \<Rightarrow> string \<Rightarrow> string \<Rightarrow> 'fs \<Rightarrow> string list \<Rightarrow> 'fs outcome" where
  "do_move sys src dst fs out =
     (case move sys fs src dst of
        (fs1, Some e) \<Rightarrow> Raised e fs1 out
      | (fs1, None) \<Rightarrow> Done fs1 out)"

definition hier_step :: "'fs os \<Rightarrow> string \<Rightarrow> string \<Rightarrow> 'fs \<Rightarrow> string list \<Rightarrow> 'fs outcome" where
  "hier_step sys logType logfile fs out =
     (case hier_plan logType logfile of
        Skip w \<Rightarrow> Done fs (out @ [w])
      | Relocate path dst \<Rightarrow>
          (case makedirs sys fs path of
             (fs1, None) \<Rightarrow> do_move sys (OUTDIR @ logfile) dst fs1 out
           | (fs1, Some exc) \<Rightarrow>
               (case exc of
                  OSError errno \<Rightarrow>
                    if errno = EEXIST \<and> isdir sys fs1 path
                    then do_move sys (OUTDIR @ logfile) dst fs1 out
                    else Raised exc fs1 out
                | _ \<Rightarrow> Raised exc fs1 out)))"

fun hier_loop :: "'fs os \<Rightarrow> string \<Rightarrow> string list \<Rightarrow> 'fs \<Rightarrow> string list \<Rightarrow> 'fs outcome" where
  "hier_loop sys logType [] fs out = Done fs out"
| "hier_loop sys logType (logfile # logfiles) fs out =
     (case hier_step sys logType logfile fs out of
        Done fs1 out1 \<Rightarrow> hier_loop sys logType logfiles fs1 out1
      | Raised e fs1 out1 \<Rightarrow> Raised e fs1 out1)"

definition convertToHierarchy :: "'fs os \<Rightarrow> string \<Rightarrow> 'fs \<Rightarrow> string list \<Rightarrow> 'fs outcome" where
  "convertToHierarchy sys logType fs out =
     (let out1 = out @ [''Rearranging logs into 1.6 hierarchy...'']
      in (case listdir sys fs OUTDIR of
            Inl e \<Rightarrow> Raised e fs out1
          | Inr logfiles \<Rightarrow>
              (case hier_loop sys logType logfiles fs out1 of
                 Raised e fs1 out2 \<Rightarrow> Raised e fs1 out2
               | Done fs1 out2 \<Rightarrow> Done fs1 (out2 @ [''Done!'']))))"

section \<open>Notions the properties are stated with\<close>

text \<open>
  A line has the shape of a log line when it starts with an opening bracket and a closing
  bracket follows; its stamp is the text between the two, without the colons.
\<close>

definition bracketed :: "string \<Rightarrow> bool" where
  "bracketed l = (case l of [] \<Rightarrow> False | c # r \<Rightarrow> c = CHR ''['' \<and> CHR '']'' \<in> set r)"

definition stamp :: "string \<Rightarrow> string" where
  "stamp l = filter (\<lambda>c. c \<noteq> CHR '':'') (takeWhile (\<lambda>c. c \<noteq> CHR '']'') (tl l))"

text \<open>What \<open>sortLines\<close> computes for one line: whether the pattern matches, and the key.\<close>

definition parses :: "string \<Rightarrow> bool" where
  "parses line = (re_match lineRe line \<noteq> None)"

definition ts_of :: "string \<Rightarrow> string" where
  "ts_of line =
     (case re_match lineRe line of
        None \<Rightarrow> []
      | Some m \<Rightarrow> (case group m ''1'' of Inl e \<Rightarrow> [] | Inr g \<Rightarrow> strip_colons g))"

definition lineP :: "piece list" where
  "lineP = map snd lineRe"

text \<open>
  The declarative reading of a pattern: \<open>fits ps ms s\<close> says that the texts \<open>ms\<close>, one for
  each item of \<open>ps\<close>, are a way to match a prefix of \<open>s\<close>.
\<close>

fun fits_piece :: "quant \<Rightarrow> cset \<Rightarrow> string \<Rightarrow> bool" where
  "fits_piece One cs m = (\<exists>c. m = [c] \<and> in_cset cs c)"
| "fits_piece PlusGreedy cs m = (m \<noteq> [] \<and> list_all (in_cset cs) m)"
| "fits_piece PlusLazy cs m = (m \<noteq> [] \<and> list_all (in_cset cs) m)"
| "fits_piece StarGreedy cs m = list_all (in_cset cs) m"
| "fits_piece StarLazy cs m = list_all (in_cset cs) m"

fun fits :: "piece list \<Rightarrow> string list \<Rightarrow> string \<Rightarrow> bool" where
  "fits [] ms s = (ms = [])"
| "fits (Eol # ps) ms s =
     (\<exists>ms'. ms = [] # ms' \<and> (s = [] \<or> s = [newline]) \<and> fits ps ms' s)"
| "fits (P q cs # ps) ms s =
     (\<exists>m ms' r. ms = m # ms' \<and> s = m @ r \<and> fits_piece q cs m \<and> fits ps ms' r)"





text \<open>A file is terminated when it is empty or its last byte is the newline.\<close>

definition terminated :: "string \<Rightarrow> bool" where
  "terminated c = (c = [] \<or> last c = newline)"

text \<open>
  The entry of the output directory under which the rewriter puts a name: the first
  component of the directory it plans for it.
\<close>

definition top_of :: "string \<Rightarrow> string \<Rightarrow> string option" where
  "top_of logType logfile =
     (case hier_plan logType logfile of
        Skip w \<Rightarrow> None
      | Relocate path dst \<Rightarrow>
          Some (takeWhile (\<lambda>c. c \<noteq> CHR ''/'') (drop (length OUTDIR) path)))"

text \<open>The items of the Global pattern that follow the user field.\<close>

definition global_rest :: "piece list" where
  "global_rest = tl (map snd globalRe)"

section \<open>A small filesystem, to run the script on\<close>

text \<open>
  Files are kept by their full path, with their content and metadata; directories by
  their path. A new file gets the metadata \<open>new_stat\<close>.
\<close>

record toyfs =
  files :: "(string \<times> string \<times> stat) list"
  dirs :: "string list"

definition ENOENT :: int where
  "ENOENT = 2"

definition new_stat :: stat where
  "new_stat = \<lparr>st_mode = 420, st_mtime = 0\<rparr>"

definition toy_del :: "string \<Rightarrow> toyfs \<Rightarrow> toyfs" where
  "toy_del p fs = fs\<lparr>files := filter (\<lambda>e. fst e \<noteq> p) (files fs)\<rparr>"

definition toy_put :: "string \<Rightarrow> string \<times> stat \<Rightarrow> toyfs \<Rightarrow> toyfs" where
  "toy_put p f fs = fs\<lparr>files := (p, f) # filter (\<lambda>e. fst e \<noteq> p) (files fs)\<rparr>"

definition toy_fopen :: "toyfs \<Rightarrow> string \<Rightarrow> pyexc + string" where
  "toy_fopen fs p =
     (case map_of (files fs) p of None \<Rightarrow> Inl (IOError ENOENT) | Some (c, st) \<Rightarrow> Inr c)"

definition toy_fwrite :: "toyfs \<Rightarrow> string \<Rightarrow> string \<Rightarrow> toyfs \<times> pyexc option" where
  "toy_fwrite fs p c = (toy_put p (c, new_stat) fs, None)"

definition toy_copystat :: "toyfs \<Rightarrow> string \<Rightarrow> string \<Rightarrow> toyfs \<times> pyexc option" where
  "toy_copystat fs src dst =
     (case map_of (files fs) src of
        None \<Rightarrow> (fs, Some (OSError ENOENT))
      | Some (c, st) \<Rightarrow>
          (case map_of (files fs) dst of
             None \<Rightarrow> (fs, Some (OSError ENOENT))
           | Some (c', st') \<Rightarrow> (toy_put dst (c', st) fs, None)))"

definition toy_copy2 :: "toyfs \<Rightarrow> string \<Rightarrow> string \<Rightarrow> toyfs \<times> pyexc option" where
  "toy_copy2 fs src dst =
     (case map_of (files fs) src of
        None \<Rightarrow> (fs, Some (IOError ENOENT))
      | Some f \<Rightarrow> (toy_put dst f fs, None))"

definition child_of :: "string \<Rightarrow> string \<Rightarrow> string option" where
  "child_of d p =
     (if take (length d) p = d \<and> drop (length d) p \<noteq> []
      then Some (takeWhile (\<lambda>c. c \<noteq> CHR ''/'') (drop (length d) p)) else None)"

definition toy_listdir :: "toyfs \<Rightarrow> string \<Rightarrow> pyexc + string list" where
  "toy_listdir fs d = Inr (remdups (List.map_filter (child_of d) (map fst (files fs) @ dirs fs)))"

definition toy_makedirs :: "toyfs \<Rightarrow> string \<Rightarrow> toyfs \<times> pyexc option" where
  "toy_makedirs fs p =
     (if p \<in> set (dirs fs) \<or> map_of (files fs) p \<noteq> None then (fs, Some (OSError EEXIST))
      else (fs\<lparr>dirs := p # dirs fs\<rparr>, None))"

definition toy_isdir :: "toyfs \<Rightarrow> string \<Rightarrow> bool" where
  "toy_isdir fs p = (p \<in> set (dirs fs))"

text \<open>
  A move is a rename: of a file, or of a directory with all that is under it.
\<close>

definition rebase :: "string \<Rightarrow> string \<Rightarrow> string \<Rightarrow> string" where
  "rebase src dst p =
     (if p = src \<or> take (length src + 1) p = src @ ''/'' then dst @ drop (length src) p else p)"

definition toy_move :: "toyfs \<Rightarrow> string \<Rightarrow> string \<Rightarrow> toyfs \<times> pyexc option" where
  "toy_move fs src dst =
     (case map_of (files fs) src of
        None \<Rightarrow>
          if src \<in> set (dirs fs)
          then (\<lparr>files = map (\<lambda>e. (rebase src dst (fst e), snd e)) (files fs),
                 dirs = map (rebase src dst) (dirs fs)\<rparr>, None)
          else (fs, Some (IOError ENOENT))
      | Some f \<Rightarrow> (toy_put dst f (toy_del src fs), None))"

definition toy_stat :: "toyfs \<Rightarrow> string \<Rightarrow> stat option" where
  "toy_stat fs p = map_option snd (map_of (files fs) p)"

definition toy :: "toyfs os" where
  "toy = \<lparr>fopen = toy_fopen, fwrite = toy_fwrite, copystat = toy_copystat, copy2 = toy_copy2,
          listdir = toy_listdir, makedirs = toy_makedirs, isdir = toy_isdir, move = toy_move,
          os_stat = toy_stat\<rparr>"

text \<open>Some states of the small filesystem, and the metadata of their files.\<close>

definition a_stat :: stat where
  "a_stat = \<lparr>st_mode = 384, st_mtime = 1452816000\<rparr>"

definition b_stat :: stat where
  "b_stat = \<lparr>st_mode = 420, st_mtime = 1452902400\<rparr>"

definition staged :: "string \<Rightarrow> toyfs" where
  "staged name = \<lparr>files = [(OUTDIR @ name, ''[00:00:30] b'', a_stat)], dirs = []\<rparr>"

definition moved :: "string \<Rightarrow> string \<Rightarrow> toyfs" where
  "moved dir file = \<lparr>files = [(file, ''[00:00:30] b'', a_stat)], dirs = [dir]\<rparr>"

definition rearranged :: toyfs where
  "rearranged =
     \<lparr>files = [(''./output/alice/freenode/#chan/2016-01-15.log'', ''[00:00:30] b'', a_stat),
               (''./output/notes.log'', ''n'', b_stat)],
      dirs = [''./output/alice/freenode/#chan'']\<rparr>"

definition flat_tree :: toyfs where
  "flat_tree =
     \<lparr>files = [(''./output/alice_freenode_#chan_20160115.log'', ''[00:00:30] b'', a_stat),
               (''./output/notes.log'', ''n'', b_stat)],
      dirs = []\<rparr>"

definition dir_exists :: toyfs where
  "dir_exists =
     \<lparr>files = [(''./output/alice_freenode_#chan_20160115.log'', ''[00:00:30] b'', a_stat)],
      dirs = [''./output/alice/freenode/#chan'']\<rparr>"

definition file_in_the_way :: toyfs where
  "file_in_the_way =
     \<lparr>files = [(''./output/alice_freenode_#chan_20160115.log'', ''[00:00:30] b'', a_stat),
               (''./output/alice/freenode/#chan'', ''x'', b_stat)],
      dirs = []\<rparr>"

definition two_logs :: toyfs where
  "two_logs =
     \<lparr>files = [(''Foo.log'', ''[00:01:00] a'' @ [newline], a_stat),
               (''foo.log'', ''[00:00:30] b'' @ [newline] @ ''junk'' @ [newline], b_stat)],
      dirs = [''./output/'']\<rparr>"

definition two_logs_merged :: toyfs where
  "two_logs_merged =
     \<lparr>files = [(''./output/foo.log'',
                 ''[00:00:30] b'' @ [newline] @ ''[00:01:00] a'' @ [newline], b_stat),
               (''Foo.log'', ''[00:01:00] a'' @ [newline], a_stat),
               (''foo.log'', ''[00:00:30] b'' @ [newline] @ ''junk'' @ [newline], b_stat)],
      dirs = [''./output/'']\<rparr>"

section \<open>Properties\<close>

subsection \<open>The matcher\<close>

lemma took_Some: "took m x = Some ms \<longleftrightarrow> (\<exists>ms'. x = Some ms' \<and> ms = m # ms')"
  by (cases x) auto

lemma longer_Some:
  "longer c x = Some ms \<longleftrightarrow> (\<exists>m ms'. x = Some (m # ms') \<and> ms = (c # m) # ms')"
  by (cases "(c, x)" rule: longer.cases) auto

lemma orelse_Some: "orelse x y = Some z \<longleftrightarrow> x = Some z \<or> (x = None \<and> y = Some z)"
  by (cases x) auto

lemma fits_P_Cons:
  "fits (P q cs # ps) (m # ms) s \<longleftrightarrow> (\<exists>r. s = m @ r \<and> fits_piece q cs m \<and> fits ps ms r)"
  by auto

lemma fits_skip: "fits ps ms s \<Longrightarrow> fits_piece q cs [] \<Longrightarrow> fits (P q cs # ps) ([] # ms) s"
  by simp

lemma rmatch_fits: "rmatch ps s = Some ms \<Longrightarrow> fits ps ms s"
proof (induction ps s arbitrary: ms rule: rmatch.induct)
  case (1 s)
  then show ?case by simp
next
  case (2 ps s)
  then show ?case by (auto simp: took_Some split: if_splits)
next
  case (4 cs ps c s)
  then show ?case by (auto simp: took_Some split: if_splits)
next
  case (6 cs ps c s)
  then show ?case by (auto simp: longer_Some split: if_splits)
next
  case (8 cs ps c s)
  then show ?case by (auto simp: longer_Some split: if_splits)
next
  case (9 cs ps)
  then show ?case by (auto simp: took_Some)
next
  case (10 cs ps c s)
  show ?case
  proof (cases "in_cset cs c \<and> longer c (rmatch (P StarGreedy cs # ps) s) = Some ms")
    case True
    then obtain m ms' where m: "rmatch (P StarGreedy cs # ps) s = Some (m # ms')"
      "ms = (c # m) # ms'" by (auto simp: longer_Some)
    with True "10.IH" have "fits (P StarGreedy cs # ps) (m # ms') s" by blast
    with True m show ?thesis by (auto simp del: fits.simps simp: fits_P_Cons)
  next
    case False
    with "10.prems" have "took [] (rmatch ps (c # s)) = Some ms"
      by (auto simp: orelse_Some split: if_splits)
    then obtain ms' where ms': "rmatch ps (c # s) = Some ms'" "ms = [] # ms'"
      by (auto simp: took_Some)
    with "10.IH" have "fits ps ms' (c # s)" by blast
    with ms' show ?thesis by simp
  qed
next
  case (11 cs ps)
  then show ?case by (auto simp: took_Some)
next
  case (12 cs ps c s)
  show ?case
  proof (cases "took [] (rmatch ps (c # s)) = Some ms")
    case True
    then obtain ms' where ms': "rmatch ps (c # s) = Some ms'" "ms = [] # ms'"
      by (auto simp: took_Some)
    with "12.IH" have "fits ps ms' (c # s)" by blast
    with ms' show ?thesis by simp
  next
    case False
    with "12.prems" have c: "in_cset cs c" and "longer c (rmatch (P StarLazy cs # ps) s) = Some ms"
      by (auto simp: orelse_Some split: if_splits)
    then obtain m ms' where m: "rmatch (P StarLazy cs # ps) s = Some (m # ms')"
      "ms = (c # m) # ms'" by (auto simp: longer_Some)
    with c "12.IH" have "fits (P StarLazy cs # ps) (m # ms') s" by blast
    with c m show ?thesis by (auto simp del: fits.simps simp: fits_P_Cons)
  qed
qed simp_all

lemma fits_length: "fits ps ms s \<Longrightarrow> length ms = length ps"
  by (induction ps ms s rule: fits.induct) auto

text \<open>
  The matcher finds a match whenever there is one, and a lazy item takes the shortest
  text after which the rest of the pattern can match.
\<close>

lemma took_None: "took m x = None \<longleftrightarrow> x = None"
  by (cases x) auto

lemma orelse_None: "orelse x y = None \<longleftrightarrow> x = None \<and> y = None"
  by (cases x) auto

lemma rmatch_P_Cons:
  assumes "rmatch (P q cs # ps) s = Some x"
  obtains y ys where "x = y # ys"
  using rmatch_fits [OF assms] by auto

lemma longer_rmatch:
  assumes "rmatch (P q cs # ps) s = Some x"
  shows "\<exists>z. longer c (rmatch (P q cs # ps) s) = Some z"
proof -
  from assms obtain y ys where "x = y # ys" by (rule rmatch_P_Cons)
  with assms show ?thesis by simp
qed

lemma fits_rmatch: "fits ps ms s \<Longrightarrow> \<exists>x. rmatch ps s = Some x"
proof (induction ps s arbitrary: ms rule: rmatch.induct)
  case (1 s)
  then show ?case by simp
next
  case (2 ps s)
  from "2.prems" obtain ms' where a: "s = [] \<or> s = [newline]" and f: "fits ps ms' s"
    by auto
  from "2.IH" [OF a f] obtain x where "rmatch ps s = Some x" ..
  with a show ?case by auto
next
  case (3 cs ps)
  then show ?case by auto
next
  case (4 cs ps c s)
  from "4.prems" obtain ms' where c: "in_cset cs c" and f: "fits ps ms' s" by auto
  from "4.IH" [OF c f] obtain x where "rmatch ps s = Some x" ..
  with c show ?case by simp
next
  case (5 cs ps)
  then show ?case by auto
next
  case (6 cs ps c s)
  from "6.prems" obtain m ms' r where m: "c # s = m @ r" "m \<noteq> []" "list_all (in_cset cs) m"
    "fits ps ms' r" by auto
  then obtain m' where m': "m = c # m'" by (cases m) auto
  with m have c: "in_cset cs c" and f: "fits (P StarGreedy cs # ps) (m' # ms') s" by auto
  from "6.IH" [OF c f] obtain x where "rmatch (P StarGreedy cs # ps) s = Some x" ..
  from longer_rmatch [OF this] c show ?case by simp
next
  case (7 cs ps)
  then show ?case by auto
next
  case (8 cs ps c s)
  from "8.prems" obtain m ms' r where m: "c # s = m @ r" "m \<noteq> []" "list_all (in_cset cs) m"
    "fits ps ms' r" by auto
  then obtain m' where m': "m = c # m'" by (cases m) auto
  with m have c: "in_cset cs c" and f: "fits (P StarLazy cs # ps) (m' # ms') s" by auto
  from "8.IH" [OF c f] obtain x where "rmatch (P StarLazy cs # ps) s = Some x" ..
  from longer_rmatch [OF this] c show ?case by simp
next
  case (9 cs ps)
  from "9.prems" obtain ms' where f: "fits ps ms' []" by auto
  from "9.IH" [OF f] obtain x where "rmatch ps [] = Some x" ..
  then show ?case by simp
next
  case (10 cs ps c s)
  from "10.prems" obtain m ms' r where m: "c # s = m @ r" "list_all (in_cset cs) m"
    "fits ps ms' r" by auto
  show ?case
  proof (cases m)
    case Nil
    with m have f: "fits ps ms' (c # s)" by simp
    show ?thesis
    proof (cases "in_cset cs c")
      case True
      from "10.IH"(2) [OF True f] obtain x where "rmatch ps (c # s) = Some x" ..
      with True show ?thesis
        by (cases "longer c (rmatch (P StarGreedy cs # ps) s)") auto
    next
      case False
      from "10.IH"(3) [OF False f] obtain x where "rmatch ps (c # s) = Some x" ..
      with False show ?thesis by simp
    qed
  next
    case (Cons c' m')
    with m have c: "in_cset cs c" and f: "fits (P StarGreedy cs # ps) (m' # ms') s" by auto
    from "10.IH"(1) [OF c f] obtain x where "rmatch (P StarGreedy cs # ps) s = Some x" ..
    from longer_rmatch [OF this, of c] obtain z where
      "longer c (rmatch (P StarGreedy cs # ps) s) = Some z" ..
    with c show ?thesis by simp
  qed
next
  case (11 cs ps)
  from "11.prems" obtain ms' where f: "fits ps ms' []" by auto
  from "11.IH" [OF f] obtain x where "rmatch ps [] = Some x" ..
  then show ?case by simp
next
  case (12 cs ps c s)
  from "12.prems" obtain m ms' r where m: "c # s = m @ r" "list_all (in_cset cs) m"
    "fits ps ms' r" by auto
  show ?case
  proof (cases m)
    case Nil
    with m have f: "fits ps ms' (c # s)" by simp
    show ?thesis
    proof (cases "in_cset cs c")
      case True
      from "12.IH"(1) [OF True f] obtain x where "rmatch ps (c # s) = Some x" ..
      with True show ?thesis by simp
    next
      case False
      from "12.IH"(3) [OF False f] obtain x where "rmatch ps (c # s) = Some x" ..
      with False show ?thesis by simp
    qed
  next
    case (Cons c' m')
    with m have c: "in_cset cs c" and f: "fits (P StarLazy cs # ps) (m' # ms') s" by auto
    from "12.IH"(2) [OF c f] obtain x where "rmatch (P StarLazy cs # ps) s = Some x" ..
    from longer_rmatch [OF this, of c] obtain z where
      "longer c (rmatch (P StarLazy cs # ps) s) = Some z" ..
    with c show ?thesis by (cases "took [] (rmatch ps (c # s))") auto
  qed
qed

lemma lazy_star_first:
  "rmatch (P StarLazy cs # ps) s = Some (m # ms) \<Longrightarrow> k < length m \<Longrightarrow>
   rmatch ps (drop k s) = None"
proof (induction s arbitrary: m k)
  case Nil
  then show ?case by (auto simp: took_Some)
next
  case (Cons c s)
  show ?case
  proof (cases "took [] (rmatch ps (c # s)) = Some (m # ms)")
    case True
    with Cons.prems(2) show ?thesis by (auto simp: took_Some)
  next
    case False
    with Cons.prems(1) have c: "in_cset cs c" and n: "took [] (rmatch ps (c # s)) = None"
      and l: "longer c (rmatch (P StarLazy cs # ps) s) = Some (m # ms)"
      by (auto simp: orelse_Some split: if_splits)
    from l obtain m' where m': "rmatch (P StarLazy cs # ps) s = Some (m' # ms)" "m = c # m'"
      by (auto simp: longer_Some)
    show ?thesis
    proof (cases k)
      case 0
      with n show ?thesis by (simp add: took_None)
    next
      case (Suc k')
      with Cons.prems(2) m' have "k' < length m'" by simp
      from Cons.IH [OF m'(1) this] Suc show ?thesis by simp
    qed
  qed
qed

lemma lazy_plus_first:
  assumes "rmatch (P PlusLazy cs # ps) s = Some (m # ms)" and "0 < k" and "k < length m"
  shows "rmatch ps (drop k s) = None"
proof (cases s)
  case Nil
  with assms show ?thesis by simp
next
  case (Cons c s')
  with assms(1) obtain m' where m': "rmatch (P StarLazy cs # ps) s' = Some (m' # ms)" "m = c # m'"
    by (auto simp: longer_Some split: if_splits)
  from assms(2) obtain k' where k: "k = Suc k'" by (cases k) auto
  with assms(3) m' have "k' < length m'" by simp
  from lazy_star_first [OF m'(1) this] k Cons show ?thesis by simp
qed

subsection \<open>Lines and the line pattern\<close>

lemma readlines_line:
  "l \<in> set (readlines c) \<Longrightarrow> l \<noteq> [] \<and> newline \<notin> set (butlast l)"
proof (induction c arbitrary: l)
  case Nil
  then show ?case by simp
next
  case (Cons x c)
  show ?case
  proof (cases "x = newline")
    case True
    with Cons show ?thesis by auto
  next
    case False
    show ?thesis
    proof (cases "readlines c")
      case Nil
      with False Cons.prems show ?thesis by auto
    next
      case (Cons l' ls)
      with False Cons.prems have "l = x # l' \<or> l \<in> set ls" by auto
      moreover have "l' \<noteq> [] \<and> newline \<notin> set (butlast l')" using Cons Cons.IH by simp
      moreover have "l \<in> set ls \<Longrightarrow> l \<noteq> [] \<and> newline \<notin> set (butlast l)"
        using Cons Cons.IH by simp
      ultimately show ?thesis using False by auto
    qed
  qed
qed

lemma concat_readlines: "concat (readlines c) = c"
  by (induction c) (auto split: list.splits)

lemma rmatch_tail:
  "newline \<notin> set b \<Longrightarrow> e = [] \<or> e = [newline] \<Longrightarrow>
   rmatch [P StarGreedy AnyChar, Eol] (b @ e) = Some [b, []]"
  by (induction b) auto

lemma rmatch_lazy_bracket:
  "CHR '']'' \<notin> set a \<Longrightarrow> newline \<notin> set a \<Longrightarrow> newline \<notin> set b \<Longrightarrow> e = [] \<or> e = [newline] \<Longrightarrow>
   rmatch [P StarLazy AnyChar, P One (Lit (CHR '']'')), P StarGreedy AnyChar, Eol]
     (a @ CHR '']'' # b @ e) = Some [a, '']'', b, []]"
proof (induction a)
  case Nil
  then show ?case using rmatch_tail [of b e] by (simp add: newline_def)
next
  case (Cons x a)
  then have x: "x \<noteq> CHR '']''" "x \<noteq> newline" by auto
  from Cons have "rmatch [P StarLazy AnyChar, P One (Lit (CHR '']'')), P StarGreedy AnyChar, Eol]
     (a @ CHR '']'' # b @ e) = Some [a, '']'', b, []]" by simp
  with x show ?case by simp
qed

lemma lineRe_bracketed:
  assumes "CHR '']'' \<notin> set a" "newline \<notin> set a" "newline \<notin> set b" "e = [] \<or> e = [newline]"
  shows "re_match lineRe (CHR ''['' # a @ CHR '']'' # b @ e) = Some [(''1'', a)]"
  using rmatch_lazy_bracket [OF assms]
  by (simp add: re_match_def lineRe_def lit_def)

lemma lineRe_sound:
  assumes "re_match lineRe l = Some m"
  shows "\<exists>a b. l = CHR ''['' # a @ CHR '']'' # b"
proof -
  from assms obtain ms where "rmatch lineP l = Some ms"
    by (auto simp: re_match_def lineP_def)
  then have "fits lineP ms l" by (rule rmatch_fits)
  then show ?thesis by (auto simp: lineP_def lineRe_def lit_def) blast+
qed

text \<open>A line of \<open>readlines\<close> that has both brackets, cut at the first closing one.\<close>

lemma line_split:
  assumes "l = CHR ''['' # a @ CHR '']'' # b" "newline \<notin> set (butlast l)"
  shows "\<exists>a' b' e. l = CHR ''['' # a' @ CHR '']'' # b' @ e \<and> CHR '']'' \<notin> set a' \<and>
     newline \<notin> set a' \<and> newline \<notin> set b' \<and> (e = [] \<or> e = [newline]) \<and>
     a' = takeWhile (\<lambda>c. c \<noteq> CHR '']'') (tl l)"
proof -
  define r where "r = a @ CHR '']'' # b"
  define a' where "a' = takeWhile (\<lambda>c. c \<noteq> CHR '']'') r"
  define t where "t = tl (dropWhile (\<lambda>c. c \<noteq> CHR '']'') r)"
  have "CHR '']'' \<in> set r" by (simp add: r_def)
  then have "dropWhile (\<lambda>c. c \<noteq> CHR '']'') r \<noteq> []" by simp
  then have "hd (dropWhile (\<lambda>c. c \<noteq> CHR '']'') r) = CHR '']''"
    using hd_dropWhile [of "\<lambda>c. c \<noteq> CHR '']''" r] by simp
  with \<open>dropWhile (\<lambda>c. c \<noteq> CHR '']'') r \<noteq> []\<close>
  have d: "dropWhile (\<lambda>c. c \<noteq> CHR '']'') r = CHR '']'' # t"
    unfolding t_def by (metis list.collapse)
  have r: "r = a' @ CHR '']'' # t"
    unfolding a'_def d [symmetric] by simp
  have l: "l = CHR ''['' # a' @ CHR '']'' # t" using assms(1) r by (simp add: r_def)
  have nb: "CHR '']'' \<notin> set a'" unfolding a'_def by (auto dest: set_takeWhileD)
  define b' where "b' = (if t \<noteq> [] \<and> last t = newline then butlast t else t)"
  define e where "e = (if t \<noteq> [] \<and> last t = newline then [newline] else [])"
  have t: "t = b' @ e" unfolding b'_def e_def by (simp, metis append_butlast_last_id)
  have na: "newline \<notin> set a'" using assms(2) l by (auto simp: butlast_append)
  have nt: "newline \<notin> set (butlast t)" using assms(2) l by (auto simp: butlast_append split: if_splits)
  have nb': "newline \<notin> set b'"
  proof (cases "t \<noteq> [] \<and> last t = newline")
    case True
    then show ?thesis using nt by (simp add: b'_def)
  next
    case False
    then have "b' = t" unfolding b'_def by (simp only: if_False)
    show ?thesis
    proof (cases t rule: rev_cases)
      case Nil
      then show ?thesis using \<open>b' = t\<close> by simp
    next
      case (snoc ys y)
      then show ?thesis using \<open>b' = t\<close> nt False by auto
    qed
  qed
  have tw: "a' = takeWhile (\<lambda>c. c \<noteq> CHR '']'') (tl l)"
    using assms(1) by (simp add: a'_def r_def)
  have e: "e = [] \<or> e = [newline]" by (simp add: e_def)
  have "l = CHR ''['' # a' @ CHR '']'' # b' @ e" using l t by simp
  with nb na nb' e tw show ?thesis by (intro exI [of _ a'] exI [of _ b'] exI [of _ e] conjI)
qed

lemma bracketed_iff: "bracketed l \<longleftrightarrow> (\<exists>a b. l = CHR ''['' # a @ CHR '']'' # b)"
  by (cases l) (auto simp: bracketed_def in_set_conv_decomp)

lemma lineRe_group:
  assumes "re_match lineRe l = Some m"
  shows "\<exists>g. m = [(''1'', g)]"
proof -
  from assms obtain ms where ms: "rmatch lineP l = Some ms" "m = named (map fst lineRe) ms"
    by (auto simp: re_match_def lineP_def)
  then have "fits lineP ms l" by (simp add: rmatch_fits)
  then obtain m1 m2 m3 m4 m5 where "ms = [m1, m2, m3, m4, m5]"
    by (auto simp: lineP_def lineRe_def lit_def)
  with ms show ?thesis by (simp add: lineRe_def lit_def)
qed

lemma parses_bracketed:
  assumes "l \<in> set (readlines c)"
  shows "parses l \<longleftrightarrow> bracketed l"
proof
  assume "parses l"
  then show "bracketed l" unfolding parses_def bracketed_iff using lineRe_sound by blast
next
  assume "bracketed l"
  then obtain a b where "l = CHR ''['' # a @ CHR '']'' # b" unfolding bracketed_iff by blast
  moreover have "newline \<notin> set (butlast l)" using assms readlines_line by blast
  ultimately obtain a' b' e where "l = CHR ''['' # a' @ CHR '']'' # b' @ e"
    "CHR '']'' \<notin> set a'" "newline \<notin> set a'" "newline \<notin> set b'" "e = [] \<or> e = [newline]"
    using line_split by blast
  then show "parses l" using lineRe_bracketed [of a' b' e] by (simp add: parses_def)
qed

lemma ts_of_stamp:
  assumes "l \<in> set (readlines c)" "bracketed l"
  shows "ts_of l = stamp l"
proof -
  from assms(2) obtain a b where "l = CHR ''['' # a @ CHR '']'' # b"
    unfolding bracketed_iff by blast
  moreover have "newline \<notin> set (butlast l)" using assms readlines_line by blast
  ultimately obtain a' b' e where l: "l = CHR ''['' # a' @ CHR '']'' # b' @ e"
    "CHR '']'' \<notin> set a'" "newline \<notin> set a'" "newline \<notin> set b'" "e = [] \<or> e = [newline]"
    "a' = takeWhile (\<lambda>c. c \<noteq> CHR '']'') (tl l)"
    using line_split by blast
  then have "re_match lineRe l = Some [(''1'', a')]" using lineRe_bracketed [of a' b' e] by simp
  then have "ts_of l = strip_colons a'" by (simp add: ts_of_def group_def)
  with l(6) show ?thesis by (simp add: stamp_def strip_colons_def)
qed

lemma scan_lines_eq:
  "scan_lines lines out pr =
     Inr (out @ map (\<lambda>l. (ts_of l, l)) (filter parses lines),
          pr @ map line_warning (filter (\<lambda>l. \<not> parses l) lines))"
proof (induction lines arbitrary: out pr)
  case Nil
  then show ?case by simp
next
  case (Cons line lines)
  show ?case
  proof (cases "re_match lineRe line")
    case None
    then show ?thesis using Cons.IH by (simp add: parses_def)
  next
    case (Some m)
    then obtain g where "m = [(''1'', g)]" using lineRe_group by blast
    with Some show ?thesis using Cons.IH by (simp add: parses_def ts_of_def group_def)
  qed
qed

lemma insort_key_tagged:
  "insort_key fst (f x, x) (map (\<lambda>l. (f l, l)) ys) = map (\<lambda>l. (f l, l)) (insort_key f x ys)"
  by (induction ys) auto

lemma sort_key_tagged:
  "sort_key fst (map (\<lambda>l. (f l, l)) xs) = map (\<lambda>l. (f l, l)) (sort_key f xs)"
  by (induction xs) (simp_all add: insort_key_tagged)

lemma sortLines_eq:
  "sortLines lines =
     Inr (sort_key ts_of (filter parses lines),
          map line_warning (filter (\<lambda>l. \<not> parses l) lines))"
  by (simp add: sortLines_def scan_lines_eq sort_key_tagged comp_def)

lemma insort_key_cong_set:
  "f x = g x \<Longrightarrow> (\<And>y. y \<in> set ys \<Longrightarrow> f y = g y) \<Longrightarrow> insort_key f x ys = insort_key g x ys"
  by (induction ys) auto

lemma sort_key_cong_set:
  "(\<And>x. x \<in> set xs \<Longrightarrow> f x = g x) \<Longrightarrow> sort_key f xs = sort_key g xs"
proof (induction xs)
  case Nil
  then show ?case by simp
next
  case (Cons x xs)
  then have "sort_key f xs = sort_key g xs" by simp
  moreover have "insort_key f x (sort_key g xs) = insort_key g x (sort_key g xs)"
    using Cons.prems by (intro insort_key_cong_set) auto
  ultimately show ?case by simp
qed

lemma merge_lines_eq:
  "merge_lines c1 c2 =
     Inr (sort_key stamp (filter bracketed (readlines c1 @ readlines c2)),
          map line_warning (filter (\<lambda>l. \<not> bracketed l) (readlines c1 @ readlines c2)))"
proof -
  let ?ls = "readlines c1 @ readlines c2"
  have p: "parses l \<longleftrightarrow> bracketed l" if "l \<in> set ?ls" for l
    using that parses_bracketed by auto
  have f: "filter parses ?ls = filter bracketed ?ls"
    by (rule filter_cong [OF refl]) (rule p)
  have n: "filter (\<lambda>l. \<not> parses l) ?ls = filter (\<lambda>l. \<not> bracketed l) ?ls"
    by (rule filter_cong [OF refl]) (simp only: p)
  have "ts_of l = stamp l" if "l \<in> set (filter bracketed ?ls)" for l
    using that ts_of_stamp by auto
  then have "sort_key ts_of (filter bracketed ?ls) = sort_key stamp (filter bracketed ?ls)"
    by (rule sort_key_cong_set)
  with f n show ?thesis by (simp add: merge_lines_def sortLines_eq del: filter_append)
qed

lemma inj_line_warning: "inj line_warning"
  by (rule injI) (simp add: line_warning_def)

lemma merge_lines_example: "merge_lines (''[00:01:00] a'' @ [newline]) (''[00:00:30] b'' @ [newline])
       = Inr ([''[00:00:30] b'' @ [newline], ''[00:01:00] a'' @ [newline]], [])"
  by code_simp

lemma merge_lines_example_swapped: "merge_lines (''[00:00:30] b'' @ [newline]) (''[00:01:00] a'' @ [newline])
       = Inr ([''[00:00:30] b'' @ [newline], ''[00:01:00] a'' @ [newline]], [])"
  by code_simp

lemma list_all_filter_id: "list_all Q (filter Q xs)"
  by (induction xs) auto

lemma list_all_sort_key: "list_all Q xs \<Longrightarrow> list_all Q (sort_key f xs)"
  by (simp add: list_all_iff)

text \<open>
  C7: in a merge, the lines kept are the lines of the two files that start with an
  opening bracket followed by a closing one, each as often as it occurs; a line without
  that shape is not in the output, and the warnings printed are one for each such line,
  in the order of the lines, each naming its line (two lines never share a warning).
\<close>

theorem merge_drops_unbracketed_lines:
  "\<exists>sortedLines pr. merge_lines c1 c2 = Inr (sortedLines, pr)
     \<and> mset sortedLines = mset (filter bracketed (readlines c1 @ readlines c2))
     \<and> list_all bracketed sortedLines
     \<and> pr = map line_warning (filter (\<lambda>l. \<not> bracketed l) (readlines c1 @ readlines c2))
     \<and> inj line_warning"
proof (intro exI conjI)
  show "merge_lines c1 c2 =
     Inr (sort_key stamp (filter bracketed (readlines c1 @ readlines c2)),
          map line_warning (filter (\<lambda>l. \<not> bracketed l) (readlines c1 @ readlines c2)))"
    by (rule merge_lines_eq)
  show "mset (sort_key stamp (filter bracketed (readlines c1 @ readlines c2)))
      = mset (filter bracketed (readlines c1 @ readlines c2))"
    by (rule mset_sort)
  show "list_all bracketed (sort_key stamp (filter bracketed (readlines c1 @ readlines c2)))"
    by (rule list_all_sort_key) (rule list_all_filter_id)
  show "inj line_warning" by (rule inj_line_warning)
qed (rule refl)

lemma readlines_nonempty: "c \<noteq> [] \<Longrightarrow> readlines c \<noteq> []"
  by (cases c) (auto split: list.splits)

lemma readlines_last:
  "terminated c \<Longrightarrow> l \<in> set (readlines c) \<Longrightarrow> last l = newline"
proof (induction c arbitrary: l)
  case Nil
  then show ?case by simp
next
  case (Cons x c)
  show ?case
  proof (cases "x = newline")
    case True
    have "terminated c" using Cons.prems(1) by (cases c) (auto simp: terminated_def)
    with True Cons show ?thesis by auto
  next
    case False
    then have c: "c \<noteq> []" "terminated c"
      using Cons.prems(1) by (auto simp: terminated_def split: if_splits)
    then obtain l' ls where r: "readlines c = l' # ls"
      using readlines_nonempty [of c] by (cases "readlines c") auto
    have l': "l' \<noteq> []" using readlines_line [of l' c] r by simp
    from r False Cons.prems(2) have "l = x # l' \<or> l \<in> set ls" by auto
    then show ?thesis
    proof
      assume "l = x # l'"
      moreover have "last l' = newline" using Cons.IH [OF c(2), of l'] r by simp
      ultimately show ?thesis using l' by simp
    next
      assume "l \<in> set ls"
      then show ?thesis using Cons.IH [OF c(2), of l] r by simp
    qed
  qed
qed

lemma readlines_whole_line:
  "newline \<notin> set b \<Longrightarrow> readlines (b @ newline # rest) = (b @ [newline]) # readlines rest"
  by (induction b) auto

lemma readlines_concat:
  "list_all (\<lambda>l. l \<noteq> [] \<and> last l = newline \<and> newline \<notin> set (butlast l)) ls \<Longrightarrow>
   readlines (concat ls) = ls"
proof (induction ls)
  case Nil
  then show ?case by simp
next
  case (Cons l ls)
  then have l: "l \<noteq> []" "last l = newline" "newline \<notin> set (butlast l)" by simp_all
  define b where "b = butlast l"
  have lb: "l = b @ [newline]" unfolding b_def using l(1,2) by (metis append_butlast_last_id)
  have nb: "newline \<notin> set b" unfolding b_def by (rule l(3))
  from Cons have "readlines (concat ls) = ls" by simp
  then show ?case using readlines_whole_line [OF nb, of "concat ls"] by (simp add: lb)
qed

lemma merge_one_eq:
  assumes "fopen sys fs f1 = Inr c1" "fopen sys fs f2 = Inr c2"
    and "merge_lines c1 c2 = Inr (sortedLines, pr)"
  shows "merge_one sys [f1, f2] fs out =
          (case fwrite sys fs (OUTDIR @ lower f1) (concat sortedLines) of
             (fs1, Some e) \<Rightarrow> Raised e fs1 (out @ pr)
           | (fs1, None) \<Rightarrow>
               (case copystat sys fs1 f2 (OUTDIR @ lower f1) of
                  (fs2, Some e) \<Rightarrow> Raised e fs2 (out @ pr)
                | (fs2, None) \<Rightarrow> Done fs2 (out @ pr)))"
  using assms by (simp add: merge_one_def)

lemma merged_readlines:
  assumes "terminated c1" "terminated c2"
  shows "readlines (concat (sort_key stamp (filter bracketed (readlines c1 @ readlines c2))))
       = sort_key stamp (filter bracketed (readlines c1 @ readlines c2))"
proof (rule readlines_concat)
  have "l \<noteq> [] \<and> last l = newline \<and> newline \<notin> set (butlast l)"
    if "l \<in> set (readlines c1 @ readlines c2)" for l
    using that assms readlines_last readlines_line by auto
  then show "list_all (\<lambda>l. l \<noteq> [] \<and> last l = newline \<and> newline \<notin> set (butlast l))
     (sort_key stamp (filter bracketed (readlines c1 @ readlines c2)))"
    by (auto simp: list_all_iff)
qed

lemma merge_lines_colons:
  "merge_lines (''[1:00] x'' @ [newline]) (''[10:0] y'' @ [newline])
       = Inr ([''[1:00] x'' @ [newline], ''[10:0] y'' @ [newline]], [])"
  by code_simp

lemma stamp_examples:
  "stamp (''[00:00:30] b'' @ [newline]) = ''000030''"
  "stamp (''[1:00] x'' @ [newline]) = ''100''"
  "stamp (''[10:0] y'' @ [newline]) = ''100''"
  by code_simp+

lemma merge_lines_unterminated:
  "merge_lines ''[00:00:30] b'' (''[00:01:00] a'' @ [newline])
     = Inr ([''[00:00:30] b'', ''[00:01:00] a'' @ [newline]], [])"
  by code_simp

text \<open>
  C2: for a pair \<open>(f1, f2)\<close> whose two files can be read, what the merge writes, to the
  lowercase name of \<open>f1\<close> in the output directory, is the lines of a list one after the
  other, each as it was read. The list is made of the bracketed lines of \<open>f1\<close> and of \<open>f2\<close>, each as
  often as it occurs, in ascending order of their stamps (the text between the brackets
  without its colons, compared bytewise), and lines with the same stamp keep their order,
  those of \<open>f1\<close> before those of \<open>f2\<close>. So \<open>[00:00:30]\<close> comes before \<open>[00:01:00]\<close>
  whichever file each is in, and \<open>[1:00]\<close> and \<open>[10:0]\<close>, equal once the colons are
  gone, stay as they were. When both files are empty or end in a newline, the lines of the
  written file are the lines of the list; a last line without a newline is written as it
  was read, with no newline added.
\<close>

theorem merged_file_is_stable_sort_by_stamp:
  "(fopen sys fs f1 = Inr c1 \<and> fopen sys fs f2 = Inr c2 \<longrightarrow>
     (\<exists>sortedLines pr.
        merge_one sys [f1, f2] fs out =
          (case fwrite sys fs (OUTDIR @ lower f1) (concat sortedLines) of
             (fs1, Some e) \<Rightarrow> Raised e fs1 (out @ pr)
           | (fs1, None) \<Rightarrow>
               (case copystat sys fs1 f2 (OUTDIR @ lower f1) of
                  (fs2, Some e) \<Rightarrow> Raised e fs2 (out @ pr)
                | (fs2, None) \<Rightarrow> Done fs2 (out @ pr)))
      \<and> merge_lines c1 c2 = Inr (sortedLines, pr)
      \<and> sorted (map stamp sortedLines)
      \<and> mset sortedLines
          = mset (filter bracketed (readlines c1)) + mset (filter bracketed (readlines c2))
      \<and> (\<forall>k. filter (\<lambda>l. stamp l = k) sortedLines
             = filter (\<lambda>l. stamp l = k) (filter bracketed (readlines c1))
               @ filter (\<lambda>l. stamp l = k) (filter bracketed (readlines c2)))
      \<and> (terminated c1 \<and> terminated c2 \<longrightarrow> readlines (concat sortedLines) = sortedLines)))
   \<and> merge_lines (''[00:01:00] a'' @ [newline]) (''[00:00:30] b'' @ [newline])
       = Inr ([''[00:00:30] b'' @ [newline], ''[00:01:00] a'' @ [newline]], [])
   \<and> merge_lines (''[00:00:30] b'' @ [newline]) (''[00:01:00] a'' @ [newline])
       = Inr ([''[00:00:30] b'' @ [newline], ''[00:01:00] a'' @ [newline]], [])
   \<and> stamp (''[00:00:30] b'' @ [newline]) = ''000030''
   \<and> stamp (''[1:00] x'' @ [newline]) = ''100''
   \<and> stamp (''[10:0] y'' @ [newline]) = ''100''
   \<and> merge_lines (''[1:00] x'' @ [newline]) (''[10:0] y'' @ [newline])
       = Inr ([''[1:00] x'' @ [newline], ''[10:0] y'' @ [newline]], [])
   \<and> merge_lines ''[00:00:30] b'' (''[00:01:00] a'' @ [newline])
       = Inr ([''[00:00:30] b'', ''[00:01:00] a'' @ [newline]], [])"
proof (intro conjI impI)
  assume o: "fopen sys fs f1 = Inr c1 \<and> fopen sys fs f2 = Inr c2"
  let ?kept = "filter bracketed (readlines c1) @ filter bracketed (readlines c2)"
  let ?pr = "map line_warning (filter (\<lambda>l. \<not> bracketed l) (readlines c1 @ readlines c2))"
  have eq: "merge_lines c1 c2 = Inr (sort_key stamp ?kept, ?pr)"
    using merge_lines_eq [of c1 c2] by simp
  have m: "merge_one sys [f1, f2] fs out =
          (case fwrite sys fs (OUTDIR @ lower f1) (concat (sort_key stamp ?kept)) of
             (fs1, Some e) \<Rightarrow> Raised e fs1 (out @ ?pr)
           | (fs1, None) \<Rightarrow>
               (case copystat sys fs1 f2 (OUTDIR @ lower f1) of
                  (fs2, Some e) \<Rightarrow> Raised e fs2 (out @ ?pr)
                | (fs2, None) \<Rightarrow> Done fs2 (out @ ?pr)))"
    using o eq by (intro merge_one_eq) simp_all
  have s: "sorted (map stamp (sort_key stamp ?kept))" by (rule sorted_sort_key)
  have ms: "mset (sort_key stamp ?kept)
      = mset (filter bracketed (readlines c1)) + mset (filter bracketed (readlines c2))"
    by simp
  have st: "\<forall>k. filter (\<lambda>l. stamp l = k) (sort_key stamp ?kept)
            = filter (\<lambda>l. stamp l = k) (filter bracketed (readlines c1))
              @ filter (\<lambda>l. stamp l = k) (filter bracketed (readlines c2))"
    using sort_key_stable [of stamp _ ?kept] by simp
  have rt: "terminated c1 \<and> terminated c2 \<longrightarrow>
      readlines (concat (sort_key stamp ?kept)) = sort_key stamp ?kept"
    using merged_readlines [of c1 c2] by simp
  show "\<exists>sortedLines pr.
        merge_one sys [f1, f2] fs out =
          (case fwrite sys fs (OUTDIR @ lower f1) (concat sortedLines) of
             (fs1, Some e) \<Rightarrow> Raised e fs1 (out @ pr)
           | (fs1, None) \<Rightarrow>
               (case copystat sys fs1 f2 (OUTDIR @ lower f1) of
                  (fs2, Some e) \<Rightarrow> Raised e fs2 (out @ pr)
                | (fs2, None) \<Rightarrow> Done fs2 (out @ pr)))
      \<and> merge_lines c1 c2 = Inr (sortedLines, pr)
      \<and> sorted (map stamp sortedLines)
      \<and> mset sortedLines
          = mset (filter bracketed (readlines c1)) + mset (filter bracketed (readlines c2))
      \<and> (\<forall>k. filter (\<lambda>l. stamp l = k) sortedLines
             = filter (\<lambda>l. stamp l = k) (filter bracketed (readlines c1))
               @ filter (\<lambda>l. stamp l = k) (filter bracketed (readlines c2)))
      \<and> (terminated c1 \<and> terminated c2 \<longrightarrow> readlines (concat sortedLines) = sortedLines)"
    by (intro exI [of _ "sort_key stamp ?kept"] exI [of _ ?pr] conjI m eq s ms st rt)
qed (rule merge_lines_example merge_lines_example_swapped stamp_examples merge_lines_colons
    merge_lines_unterminated)+

lemma two_logs_merge:
  "merge_one toy [''Foo.log'', ''foo.log''] two_logs []
     = Done two_logs_merged [line_warning (''junk'' @ [newline])]"
  by code_simp

lemma two_logs_fopen:
  "fopen toy two_logs ''Foo.log'' = Inr (''[00:01:00] a'' @ [newline])"
  "fopen toy two_logs ''foo.log'' = Inr (''[00:00:30] b'' @ [newline] @ ''junk'' @ [newline])"
  by code_simp+

lemma two_logs_terminated:
  "terminated (''[00:01:00] a'' @ [newline])"
  "terminated (''[00:00:30] b'' @ [newline] @ ''junk'' @ [newline])"
  by code_simp+

lemma two_logs_merged_content:
  "fopen toy two_logs_merged ''./output/foo.log''
     = Inr (''[00:00:30] b'' @ [newline] @ ''[00:01:00] a'' @ [newline])"
  by code_simp

lemma two_logs_lines:
  "merge_lines (''[00:01:00] a'' @ [newline])
      (''[00:00:30] b'' @ [newline] @ ''junk'' @ [newline])
     = Inr ([''[00:00:30] b'' @ [newline], ''[00:01:00] a'' @ [newline]],
            [line_warning (''junk'' @ [newline])])"
  by code_simp

theorem merged_file_is_stable_sort_by_stamp_witness:
  "fopen toy two_logs ''Foo.log'' = Inr (''[00:01:00] a'' @ [newline])
   \<and> fopen toy two_logs ''foo.log'' = Inr (''[00:00:30] b'' @ [newline] @ ''junk'' @ [newline])
   \<and> terminated (''[00:01:00] a'' @ [newline])
   \<and> terminated (''[00:00:30] b'' @ [newline] @ ''junk'' @ [newline])
   \<and> merge_lines (''[00:01:00] a'' @ [newline])
        (''[00:00:30] b'' @ [newline] @ ''junk'' @ [newline])
       = Inr ([''[00:00:30] b'' @ [newline], ''[00:01:00] a'' @ [newline]],
              [line_warning (''junk'' @ [newline])])
   \<and> merge_one toy [''Foo.log'', ''foo.log''] two_logs []
       = Done two_logs_merged [line_warning (''junk'' @ [newline])]
   \<and> fopen toy two_logs_merged ''./output/foo.log''
       = Inr (''[00:00:30] b'' @ [newline] @ ''[00:01:00] a'' @ [newline])
   \<and> sorted (map stamp [''[00:00:30] b'' @ [newline], ''[00:01:00] a'' @ [newline]])
   \<and> readlines (concat [''[00:00:30] b'' @ [newline], ''[00:01:00] a'' @ [newline]])
       = [''[00:00:30] b'' @ [newline], ''[00:01:00] a'' @ [newline]]"
proof -
  let ?c1 = "''[00:01:00] a'' @ [newline]"
  let ?c2 = "''[00:00:30] b'' @ [newline] @ ''junk'' @ [newline]"
  let ?L = "[''[00:00:30] b'' @ [newline], ''[00:01:00] a'' @ [newline]]"
  have o: "fopen toy two_logs ''Foo.log'' = Inr ?c1 \<and> fopen toy two_logs ''foo.log'' = Inr ?c2"
    by (intro conjI two_logs_fopen)
  from mp [OF conjunct1 [OF merged_file_is_stable_sort_by_stamp [of toy two_logs "''Foo.log''" ?c1 "''foo.log''" ?c2 "[]"]] o]
  obtain sl pr where ml: "merge_lines ?c1 ?c2 = Inr (sl, pr)"
    and s: "sorted (map stamp sl)"
    and rt: "terminated ?c1 \<and> terminated ?c2 \<longrightarrow> readlines (concat sl) = sl"
    by (elim exE conjE)
  from ml have sl: "sl = ?L" unfolding two_logs_lines by simp
  have t: "terminated ?c1 \<and> terminated ?c2" by (intro conjI two_logs_terminated)
  from mp [OF rt t] have r: "readlines (concat ?L) = ?L" unfolding sl .
  from s have s': "sorted (map stamp ?L)" unfolding sl .
  show ?thesis
    by (intro conjI two_logs_fopen two_logs_terminated two_logs_lines two_logs_merge
        two_logs_merged_content s' r)
qed

subsection \<open>The duplicate detector\<close>

lemma dupe_scan_eq:
  "dupe_scan kvs dupenames pr =
     (dupenames @ map fst (filter (\<lambda>kv. snd kv = 2) kvs),
      pr @ map (\<lambda>kv. dupe_warning (fst kv)) (filter (\<lambda>kv. snd kv > 2) kvs))"
  by (induction kvs dupenames pr rule: dupe_scan.induct) auto

lemma filter_tagged:
  "map fst (filter (\<lambda>kv. Q (snd kv)) (map (\<lambda>k. (k, f k)) ks)) = filter (\<lambda>k. Q (f k)) ks"
  by (induction ks) auto

lemma findMixedCaseDupes_eq:
  "findMixedCaseDupes ko names =
     (map (copies_of names)
        (filter (\<lambda>k. count_list (map lower names) k = 2) (ko (map lower names))),
      map dupe_warning
        (filter (\<lambda>k. count_list (map lower names) k > 2) (ko (map lower names))))"
proof -
  let ?lc = "map lower names"
  have w: "map (\<lambda>kv. dupe_warning (fst kv)) kvs = map dupe_warning (map fst kvs)"
    for kvs :: "(string \<times> nat) list"
    by simp
  have "dupe_scan (counter_items ko ?lc) [] [] =
     (filter (\<lambda>k. count_list ?lc k = 2) (ko ?lc),
      map dupe_warning (filter (\<lambda>k. count_list ?lc k > 2) (ko ?lc)))"
    unfolding dupe_scan_eq w counter_items_def
    using filter_tagged [of "\<lambda>v. v = 2" "count_list ?lc" "ko ?lc"]
      filter_tagged [of "\<lambda>v. v > 2" "count_list ?lc" "ko ?lc"]
    by simp
  then show ?thesis by (simp add: findMixedCaseDupes_def)
qed

lemma length_copies_of: "length (copies_of names k) = count_list (map lower names) k"
  unfolding copies_of_def by (induction names) auto

lemma filter_single_index:
  "filter Q xs = [a] \<Longrightarrow>
   \<exists>j<length xs. xs ! j = a \<and> (\<forall>n<length xs. Q (xs ! n) \<longrightarrow> n = j)"
proof (induction xs)
  case Nil
  then show ?case by simp
next
  case (Cons x xs)
  show ?case
  proof (cases "Q x")
    case True
    with Cons.prems have a: "a = x" and e: "filter Q xs = []" by simp_all
    from e have "\<forall>m<length xs. \<not> Q (xs ! m)"
      by (simp add: filter_empty_conv)
    with a True have "0 < length (x # xs) \<and> (x # xs) ! 0 = a
        \<and> (\<forall>n<length (x # xs). Q ((x # xs) ! n) \<longrightarrow> n = 0)"
      by (simp add: All_less_Suc2)
    then show ?thesis by (rule exI [of _ 0])
  next
    case False
    with Cons.prems have "filter Q xs = [a]" by simp
    with Cons.IH have "\<exists>j<length xs. xs ! j = a \<and> (\<forall>n<length xs. Q (xs ! n) \<longrightarrow> n = j)" .
    then obtain j where j: "j < length xs \<and> xs ! j = a
      \<and> (\<forall>n<length xs. Q (xs ! n) \<longrightarrow> n = j)" ..
    with False have "Suc j < length (x # xs) \<and> (x # xs) ! Suc j = a
        \<and> (\<forall>n<length (x # xs). Q ((x # xs) ! n) \<longrightarrow> n = Suc j)"
      by (simp add: All_less_Suc2)
    then show ?thesis by (rule exI [of _ "Suc j"])
  qed
qed

lemma filter_pair_index:
  "filter Q xs = [a, b] \<Longrightarrow>
   \<exists>i j. i < j \<and> j < length xs \<and> xs ! i = a \<and> xs ! j = b
     \<and> (\<forall>n<length xs. Q (xs ! n) \<longrightarrow> n = i \<or> n = j)"
proof (induction xs)
  case Nil
  then show ?case by simp
next
  case (Cons x xs)
  show ?case
  proof (cases "Q x")
    case True
    with Cons.prems have a: "a = x" and e: "filter Q xs = [b]" by simp_all
    from filter_single_index [OF e] obtain j where j: "j < length xs \<and> xs ! j = b
      \<and> (\<forall>n<length xs. Q (xs ! n) \<longrightarrow> n = j)" ..
    with a True have "0 < Suc j \<and> Suc j < length (x # xs) \<and> (x # xs) ! 0 = a
        \<and> (x # xs) ! Suc j = b
        \<and> (\<forall>n<length (x # xs). Q ((x # xs) ! n) \<longrightarrow> n = 0 \<or> n = Suc j)"
      by (simp add: All_less_Suc2)
    then show ?thesis by (intro exI [of _ 0] exI [of _ "Suc j"])
  next
    case False
    with Cons.prems have "filter Q xs = [a, b]" by simp
    with Cons.IH have "\<exists>i j. i < j \<and> j < length xs \<and> xs ! i = a \<and> xs ! j = b
     \<and> (\<forall>n<length xs. Q (xs ! n) \<longrightarrow> n = i \<or> n = j)" .
    then obtain i j where j: "i < j \<and> j < length xs \<and> xs ! i = a \<and> xs ! j = b
      \<and> (\<forall>n<length xs. Q (xs ! n) \<longrightarrow> n = i \<or> n = j)" by (elim exE)
    with False have "Suc i < Suc j \<and> Suc j < length (x # xs) \<and> (x # xs) ! Suc i = a
        \<and> (x # xs) ! Suc j = b
        \<and> (\<forall>n<length (x # xs). Q ((x # xs) ! n) \<longrightarrow> n = Suc i \<or> n = Suc j)"
      by (simp add: All_less_Suc2)
    then show ?thesis by (intro exI [of _ "Suc i"] exI [of _ "Suc j"])
  qed
qed

lemma length_two: "length xs = 2 \<Longrightarrow> \<exists>a b. xs = [a, b]"
  by (cases xs; simp) (metis Suc_length_conv length_0_conv)

lemma copies_of_pair:
  assumes "count_list (map lower names) k = 2"
  shows "\<exists>i j. i < j \<and> j < length names \<and> copies_of names k = [names ! i, names ! j]
     \<and> (\<forall>n<length names. lower (names ! n) = k \<longleftrightarrow> n = i \<or> n = j)"
proof -
  have "length (copies_of names k) = 2" using assms by (simp add: length_copies_of)
  then have "\<exists>a b. copies_of names k = [a, b]" by (rule length_two)
  then obtain a b where ab: "copies_of names k = [a, b]" by (elim exE)
  then have f: "filter (\<lambda>v. lower v = k) names = [a, b]" by (simp add: copies_of_def)
  from filter_pair_index [OF f] obtain i j where ij: "i < j \<and> j < length names
     \<and> names ! i = a \<and> names ! j = b
     \<and> (\<forall>n<length names. lower (names ! n) = k \<longrightarrow> n = i \<or> n = j)" by (elim exE)
  have "a \<in> set (filter (\<lambda>v. lower v = k) names)" "b \<in> set (filter (\<lambda>v. lower v = k) names)"
    unfolding f by simp_all
  then have lab: "lower a = k" "lower b = k" by simp_all
  have "\<forall>n<length names. lower (names ! n) = k \<longleftrightarrow> n = i \<or> n = j"
  proof (intro allI impI iffI)
    fix n assume "n < length names" "lower (names ! n) = k"
    with ij show "n = i \<or> n = j" by simp
  next
    fix n assume "n < length names" "n = i \<or> n = j"
    with ij lab show "lower (names ! n) = k" by (elim disjE) simp_all
  qed
  with ij ab have "i < j \<and> j < length names \<and> copies_of names k = [names ! i, names ! j]
     \<and> (\<forall>n<length names. lower (names ! n) = k \<longleftrightarrow> n = i \<or> n = j)" by simp
  then show ?thesis by (intro exI [of _ i] exI [of _ j])
qed

lemma keyorder_ok_remdups: "keyorder_ok remdups"
  by (simp add: keyorder_ok_def)

lemma count_list_pos_in_set: "0 < count_list xs k \<Longrightarrow> k \<in> set xs"
  by (induction xs) (auto split: if_splits)

text \<open>
  C3: whatever the order of the dictionary, the detector returns one group for each
  lowercase name that occurs exactly twice, and none for the others; a name that occurs
  more than twice gets a warning only. The group of a name is the pair of the two inputs
  that lowercase to it, in the order of the input.
\<close>

theorem dupes_are_exactly_the_pairs:
  assumes "keyorder_ok ko"
  shows "\<exists>twice thrice.
      findMixedCaseDupes ko names = (map (copies_of names) twice, map dupe_warning thrice)
    \<and> distinct twice \<and> set twice = {k. count_list (map lower names) k = 2}
    \<and> distinct thrice \<and> set thrice = {k. 2 < count_list (map lower names) k}
    \<and> (\<forall>k\<in>set twice. \<exists>i j. i < j \<and> j < length names
          \<and> copies_of names k = [names ! i, names ! j]
          \<and> (\<forall>n<length names. lower (names ! n) = k \<longleftrightarrow> n = i \<or> n = j))"
proof (intro exI conjI)
  let ?lc = "map lower names"
  let ?twice = "filter (\<lambda>k. count_list ?lc k = 2) (ko ?lc)"
  let ?thrice = "filter (\<lambda>k. 2 < count_list ?lc k) (ko ?lc)"
  from assms have d: "distinct (ko ?lc)" and s: "set (ko ?lc) = set ?lc"
    by (simp_all add: keyorder_ok_def)
  show "findMixedCaseDupes ko names = (map (copies_of names) ?twice, map dupe_warning ?thrice)"
    by (rule findMixedCaseDupes_eq)
  show "distinct ?twice" "distinct ?thrice" using d by simp_all
  show "set ?twice = {k. count_list ?lc k = 2}"
    using s count_list_pos_in_set [of ?lc] by auto
  show "set ?thrice = {k. 2 < count_list ?lc k}"
    using s count_list_pos_in_set [of ?lc] by auto
  show "\<forall>k\<in>set ?twice. \<exists>i j. i < j \<and> j < length names
          \<and> copies_of names k = [names ! i, names ! j]
          \<and> (\<forall>n<length names. lower (names ! n) = k \<longleftrightarrow> n = i \<or> n = j)"
  proof
    fix k assume "k \<in> set ?twice"
    then have "count_list ?lc k = 2" by simp
    then show "\<exists>i j. i < j \<and> j < length names
          \<and> copies_of names k = [names ! i, names ! j]
          \<and> (\<forall>n<length names. lower (names ! n) = k \<longleftrightarrow> n = i \<or> n = j)"
      by (rule copies_of_pair)
  qed
qed

lemma findMixedCaseDupes_example:
  "findMixedCaseDupes remdups [''A.log'', ''b'', ''a.log'', ''B'', ''b'']
     = ([[''A.log'', ''a.log'']], [''Warning: b has more than two occurrences. Skipping.''])"
  by code_simp

theorem dupes_are_exactly_the_pairs_witness:
  "keyorder_ok remdups
   \<and> findMixedCaseDupes remdups [''A.log'', ''b'', ''a.log'', ''B'', ''b'']
       = ([[''A.log'', ''a.log'']], [''Warning: b has more than two occurrences. Skipping.''])
   \<and> (\<exists>twice thrice.
      findMixedCaseDupes remdups [''A.log'', ''b'', ''a.log'', ''B'', ''b'']
        = (map (copies_of [''A.log'', ''b'', ''a.log'', ''B'', ''b'']) twice,
           map dupe_warning thrice)
    \<and> distinct twice
    \<and> set twice = {k. count_list (map lower [''A.log'', ''b'', ''a.log'', ''B'', ''b'']) k = 2}
    \<and> distinct thrice
    \<and> set thrice = {k. 2 < count_list (map lower [''A.log'', ''b'', ''a.log'', ''B'', ''b'']) k}
    \<and> (\<forall>k\<in>set twice. \<exists>i j. i < j \<and> j < length [''A.log'', ''b'', ''a.log'', ''B'', ''b'']
          \<and> copies_of [''A.log'', ''b'', ''a.log'', ''B'', ''b''] k
              = [[''A.log'', ''b'', ''a.log'', ''B'', ''b''] ! i,
                 [''A.log'', ''b'', ''a.log'', ''B'', ''b''] ! j]
          \<and> (\<forall>n<length [''A.log'', ''b'', ''a.log'', ''B'', ''b''].
                lower ([''A.log'', ''b'', ''a.log'', ''B'', ''b''] ! n) = k \<longleftrightarrow> n = i \<or> n = j)))"
  by (intro conjI keyorder_ok_remdups findMixedCaseDupes_example
        dupes_are_exactly_the_pairs [OF keyorder_ok_remdups, of "[''A.log'', ''b'', ''a.log'', ''B'', ''b'']"])

subsection \<open>The hierarchy rewriter\<close>

lemma hier_step_nomatch:
  "re_match (myRe logType) logfile = None \<Longrightarrow>
   hier_step sys logType logfile fs out = Done fs (out @ [nomatch_warning logfile])"
  by (simp add: hier_step_def hier_plan_def)

lemma hier_loop_nomatch:
  "list_all (\<lambda>e. re_match (myRe logType) e = None) logfiles \<Longrightarrow>
   hier_loop sys logType logfiles fs out = Done fs (out @ map nomatch_warning logfiles)"
  by (induction logfiles arbitrary: out) (simp_all add: hier_step_nomatch)

lemma hier_loop_append:
  "hier_loop sys logType (xs @ ys) fs out =
     (case hier_loop sys logType xs fs out of
        Done fs1 out1 \<Rightarrow> hier_loop sys logType ys fs1 out1
      | Raised e fs1 out1 \<Rightarrow> Raised e fs1 out1)"
  by (induction xs arbitrary: fs out) (simp_all split: outcome.splits)

lemma rearranged_listdir: "listdir toy rearranged OUTDIR = Inr [''notes.log'', ''alice'']"
  by code_simp

lemma rearranged_nomatch:
  "re_match (myRe ''G'') ''notes.log'' = None" "re_match (myRe ''G'') ''alice'' = None"
  by code_simp+

text \<open>
  C6: when \<open>os.makedirs\<close> fails for the directory of a file, the file is moved all the same
  if the error is \<open>EEXIST\<close> and the path is a directory. Any other failure is raised
  again: the loop stops at this file and the whole run ends with the exception, the files
  after it untouched and \<open>Done!\<close> never printed.
\<close>

theorem makedirs_failure_aborts_unless_directory:
  assumes "hier_plan logType logfile = Relocate path dst"
    and "makedirs sys fs path = (fs1, Some exc)"
  shows "(exc = OSError EEXIST \<and> isdir sys fs1 path \<longrightarrow>
            hier_step sys logType logfile fs out = do_move sys (OUTDIR @ logfile) dst fs1 out)
       \<and> (\<not> (exc = OSError EEXIST \<and> isdir sys fs1 path) \<longrightarrow>
            hier_step sys logType logfile fs out = Raised exc fs1 out
          \<and> hier_loop sys logType (logfile # rest) fs out = Raised exc fs1 out
          \<and> (listdir sys fs0 OUTDIR = Inr (before @ logfile # rest)
               \<and> hier_loop sys logType before fs0
                     (out0 @ [''Rearranging logs into 1.6 hierarchy...'']) = Done fs out
               \<longrightarrow> convertToHierarchy sys logType fs0 out0 = Raised exc fs1 out))"
proof (intro conjI impI)
  assume "exc = OSError EEXIST \<and> isdir sys fs1 path"
  with assms show "hier_step sys logType logfile fs out = do_move sys (OUTDIR @ logfile) dst fs1 out"
    by (simp add: hier_step_def)
next
  assume n: "\<not> (exc = OSError EEXIST \<and> isdir sys fs1 path)"
  with assms show s: "hier_step sys logType logfile fs out = Raised exc fs1 out"
    by (cases exc) (auto simp: hier_step_def)
  then show l: "hier_loop sys logType (logfile # rest) fs out = Raised exc fs1 out"
    by simp
  assume "listdir sys fs0 OUTDIR = Inr (before @ logfile # rest)
     \<and> hier_loop sys logType before fs0
           (out0 @ [''Rearranging logs into 1.6 hierarchy...'']) = Done fs out"
  with l show "convertToHierarchy sys logType fs0 out0 = Raised exc fs1 out"
    by (simp add: convertToHierarchy_def hier_loop_append)
qed




text \<open>What a match of each of the three patterns looks like.\<close>

lemma networkRe_match:
  assumes "re_match networkRe f = Some m"
  shows "\<exists>w d post. m = [(''window'', w), (''date'', d)] \<and> d \<noteq> [] \<and> list_all is_digit d
     \<and> f = w @ CHR ''_'' # d @ ''.log'' @ post"
proof -
  from assms obtain ms where ms: "rmatch (map snd networkRe) f = Some ms"
    "m = named (map fst networkRe) ms"
    by (auto simp: re_match_def)
  from rmatch_fits [OF ms(1)] have "fits (map snd networkRe) ms f" .
  then obtain w d post where "ms = [w, ''_'', d, ''.'', ''l'', ''o'', ''g'']"
    "d \<noteq> []" "list_all is_digit d" "f = w @ CHR ''_'' # d @ ''.log'' @ post"
    by (clarsimp simp: networkRe_def dot_log_def lit_def list_all_iff)
  with ms(2) show ?thesis by (simp add: networkRe_def dot_log_def lit_def)
qed

lemma userRe_match:
  assumes "re_match userRe f = Some m"
  shows "\<exists>n w d post. m = [(''network'', n), (''window'', w), (''date'', d)]
     \<and> d \<noteq> [] \<and> list_all is_digit d
     \<and> f = (n @ CHR ''_'' # w) @ CHR ''_'' # d @ ''.log'' @ post"
proof -
  from assms obtain ms where ms: "rmatch (map snd userRe) f = Some ms"
    "m = named (map fst userRe) ms"
    by (auto simp: re_match_def)
  from rmatch_fits [OF ms(1)] have "fits (map snd userRe) ms f" .
  then obtain n w d post where "ms = [n, ''_'', w, ''_'', d, ''.'', ''l'', ''o'', ''g'']"
    "d \<noteq> []" "list_all is_digit d" "f = (n @ CHR ''_'' # w) @ CHR ''_'' # d @ ''.log'' @ post"
    by (clarsimp simp: userRe_def dot_log_def lit_def list_all_iff)
  with ms(2) show ?thesis by (simp add: userRe_def dot_log_def lit_def)
qed

lemma globalRe_match:
  assumes "re_match globalRe f = Some m"
  shows "\<exists>u n w d post. m = [(''user'', u), (''network'', n), (''window'', w), (''date'', d)]
     \<and> d \<noteq> [] \<and> list_all is_digit d
     \<and> f = (u @ CHR ''_'' # n @ CHR ''_'' # w) @ CHR ''_'' # d @ ''.log'' @ post"
proof -
  from assms obtain ms where ms: "rmatch (map snd globalRe) f = Some ms"
    "m = named (map fst globalRe) ms"
    by (auto simp: re_match_def)
  from rmatch_fits [OF ms(1)] have "fits (map snd globalRe) ms f" .
  then obtain u n w d post where
    "ms = [u, ''_'', n, ''_'', w, ''_'', d, ''.'', ''l'', ''o'', ''g'', []]"
    "d \<noteq> []" "list_all is_digit d"
    "f = (u @ CHR ''_'' # n @ CHR ''_'' # w) @ CHR ''_'' # d @ ''.log'' @ post"
    by (clarsimp simp: globalRe_def dot_log_def lit_def list_all_iff)
  with ms(2) show ?thesis by (simp add: globalRe_def dot_log_def lit_def)
qed


lemma match_relocates:
  assumes "re_match (myRe logType) logfile = Some m"
  shows "\<exists>path date. group m ''date'' = Inr date \<and> date \<noteq> [] \<and> list_all is_digit date
     \<and> hier_plan logType logfile =
         Relocate path (path @ ''/'' @ take 4 date @ ''-'' @ take 2 (drop 4 date) @ ''-''
                          @ take 2 (drop 6 date) @ ''.log'')"
proof -
  consider (N) "logType = ''N''" "re_match networkRe logfile = Some m"
    | (U) "logType \<noteq> ''N''" "logType = ''U''" "re_match userRe logfile = Some m"
    | (G) "logType \<noteq> ''N''" "logType \<noteq> ''U''" "re_match globalRe logfile = Some m"
    using assms by (auto simp: myRe_def split: if_splits)
  then show ?thesis
  proof cases
    case N
    from networkRe_match [OF N(2)] obtain w d post where
      m: "m = [(''window'', w), (''date'', d)]" and d: "d \<noteq> []" "list_all is_digit d"
      by (elim exE conjE)
    have "hier_plan logType logfile =
         Relocate (OUTDIR @ w) ((OUTDIR @ w) @ ''/'' @ take 4 d @ ''-'' @ take 2 (drop 4 d) @ ''-''
                          @ take 2 (drop 6 d) @ ''.log'')"
      using assms m by (simp add: hier_plan_def group_def group_or_empty_def myFormat_def N(1)
          networkDirFormat_def)
    moreover have "group m ''date'' = Inr d" using m by (simp add: group_def)
    ultimately show ?thesis using d by (intro exI [of _ "OUTDIR @ w"] exI [of _ d] conjI)
  next
    case U
    from userRe_match [OF U(3)] obtain n w d post where
      m: "m = [(''network'', n), (''window'', w), (''date'', d)]"
      and d: "d \<noteq> []" "list_all is_digit d"
      by (elim exE conjE)
    have "hier_plan logType logfile =
         Relocate (OUTDIR @ n @ ''/'' @ w)
           ((OUTDIR @ n @ ''/'' @ w) @ ''/'' @ take 4 d @ ''-'' @ take 2 (drop 4 d) @ ''-''
                          @ take 2 (drop 6 d) @ ''.log'')"
      using assms m by (simp add: hier_plan_def group_def group_or_empty_def myFormat_def U(2)
          userDirFormat_def)
    moreover have "group m ''date'' = Inr d" using m by (simp add: group_def)
    ultimately show ?thesis
      using d by (intro exI [of _ "OUTDIR @ n @ ''/'' @ w"] exI [of _ d] conjI)
  next
    case G
    from globalRe_match [OF G(3)] obtain u n w d post where
      m: "m = [(''user'', u), (''network'', n), (''window'', w), (''date'', d)]"
      and d: "d \<noteq> []" "list_all is_digit d"
      by (elim exE conjE)
    have "hier_plan logType logfile =
         Relocate (OUTDIR @ u @ ''/'' @ n @ ''/'' @ w)
           ((OUTDIR @ u @ ''/'' @ n @ ''/'' @ w) @ ''/'' @ take 4 d @ ''-'' @ take 2 (drop 4 d)
               @ ''-'' @ take 2 (drop 6 d) @ ''.log'')"
      using assms m G(1,2) by (simp add: hier_plan_def group_def group_or_empty_def myFormat_def
          globalDirFormat_def)
    moreover have "group m ''date'' = Inr d" using m by (simp add: group_def)
    ultimately show ?thesis
      using d by (intro exI [of _ "OUTDIR @ u @ ''/'' @ n @ ''/'' @ w"] exI [of _ d] conjI)
  qed
qed

lemma globalRe_match_full:
  assumes "re_match globalRe f = Some m"
  shows "\<exists>u n w d e. m = [(''user'', u), (''network'', n), (''window'', w), (''date'', d)]
     \<and> f = u @ ''_'' @ n @ ''_'' @ w @ ''_'' @ d @ ''.log'' @ e
     \<and> (e = [] \<or> e = [newline])
     \<and> u \<noteq> [] \<and> list_all (in_cset AnyChar) u
     \<and> n \<noteq> [] \<and> list_all (in_cset WordDash) n
     \<and> w \<noteq> [] \<and> list_all (in_cset AnyChar) w
     \<and> d \<noteq> [] \<and> list_all is_digit d"
proof -
  from assms obtain ms where ms: "rmatch (map snd globalRe) f = Some ms"
    "m = named (map fst globalRe) ms"
    by (auto simp: re_match_def)
  from rmatch_fits [OF ms(1)] have "fits (map snd globalRe) ms f" .
  then obtain u n w d e where
    "ms = [u, ''_'', n, ''_'', w, ''_'', d, ''.'', ''l'', ''o'', ''g'', []]"
    "f = u @ ''_'' @ n @ ''_'' @ w @ ''_'' @ d @ ''.log'' @ e"
    "e = [] \<or> e = [newline]"
    "u \<noteq> []" "list_all (in_cset AnyChar) u" "n \<noteq> []" "list_all (in_cset WordDash) n"
    "w \<noteq> []" "list_all (in_cset AnyChar) w" "d \<noteq> []" "list_all is_digit d"
    by (clarsimp simp: globalRe_def dot_log_def lit_def list_all_iff)
  with ms(2) show ?thesis
    by (intro exI [of _ u] exI [of _ n] exI [of _ w] exI [of _ d] exI [of _ e])
       (simp add: globalRe_def dot_log_def lit_def)
qed













lemma notes_nomatch: "re_match (myRe ''G'') ''notes.log'' = None"
  by code_simp




lemma alice_match:
  "re_match globalRe ''alice_freenode_#chan_20160115.log''
     = Some [(''user'', ''alice''), (''network'', ''freenode''), (''window'', ''#chan''),
             (''date'', ''20160115'')]"
  by code_simp

lemma alice_plan:
  "hier_plan ''G'' ''alice_freenode_#chan_20160115.log''
     = Relocate ''./output/alice/freenode/#chan'' ''./output/alice/freenode/#chan/2016-01-15.log''"
  by code_simp

lemma alice_mixed_plan:
  "hier_plan ''G'' ''alice_FreeNode_#Chan_20160115.log''
     = Relocate ''./output/alice/FreeNode/#Chan'' ''./output/alice/FreeNode/#Chan/2016-01-15.log''"
  by code_simp

lemma alice_lower:
  "lower ''alice_FreeNode_#chan_20160115.log'' = ''alice_freenode_#chan_20160115.log''"
  by code_simp

lemma alice_staging:
  "copy_loop sys [] [''alice_FreeNode_#chan_20160115.log''] fs 0 =
     (case copy2 sys fs ''alice_FreeNode_#chan_20160115.log''
             ''./output/alice_freenode_#chan_20160115.log'' of
        (fs1, Some e) \<Rightarrow> (fs1, 0, Some e)
      | (fs1, None) \<Rightarrow> (fs1, 1, None))"
proof -
  have "OUTDIR @ lower ''alice_FreeNode_#chan_20160115.log''
      = ''./output/alice_freenode_#chan_20160115.log''"
    unfolding alice_lower by (simp add: OUTDIR_def)
  then show ?thesis by (simp split: prod.splits option.splits)
qed

lemma hier_step_moves:
  assumes "hier_plan logType logfile = Relocate path dst"
    and "makedirs sys fs path = (fs1, None)"
    and "move sys fs1 (OUTDIR @ logfile) dst = (fs2, None)"
  shows "hier_step sys logType logfile fs out = Done fs2 out"
  using assms by (simp add: hier_step_def do_move_def)

lemma alice_mixed_match:
  "re_match globalRe ''alice_FreeNode_#Chan_20160115.log''
     = Some [(''user'', ''alice''), (''network'', ''FreeNode''), (''window'', ''#Chan''),
             (''date'', ''20160115'')]"
  by code_simp

lemma global_plan_verbatim:
  assumes "re_match globalRe f = Some [(''user'', u), (''network'', n), (''window'', w), (''date'', d)]"
  shows "hier_plan ''G'' f =
     Relocate (''./output/'' @ u @ ''/'' @ n @ ''/'' @ w)
       (''./output/'' @ u @ ''/'' @ n @ ''/'' @ w @ ''/'' @ take 4 d @ ''-'' @ take 2 (drop 4 d)
          @ ''-'' @ take 2 (drop 6 d) @ ''.log'')"
  using assms
  by (simp add: hier_plan_def myRe_def myFormat_def globalDirFormat_def group_def
      group_or_empty_def OUTDIR_def)

text \<open>
  C5: in Global mode \<open>alice_freenode_#chan_20160115.log\<close> is parsed into user \<open>alice\<close>,
  network \<open>freenode\<close>, window \<open>#chan\<close> and date \<open>20160115\<close>, and when the
  directory can be made and the move succeeds, the file is moved from the output root to
  \<open>alice/freenode/#chan/2016-01-15.log\<close> under it, with nothing printed. The rewriter
  changes no letter of the fields: for every name the Global pattern matches, the four
  fields are pieces of the name itself, between its underscores and before its \<open>.log\<close>,
  and the file goes to \<open>user/network/window\<close> under the output root, spelt as in the
  name, as the first four, the next two and the next two bytes of the date. The lowercase
  name is the work of the merge stage, which copies a file to its lowercased name.
\<close>

theorem fields_are_moved_as_they_are:
  "re_match globalRe ''alice_freenode_#chan_20160115.log''
     = Some [(''user'', ''alice''), (''network'', ''freenode''), (''window'', ''#chan''),
             (''date'', ''20160115'')]
   \<and> hier_plan ''G'' ''alice_freenode_#chan_20160115.log''
     = Relocate ''./output/alice/freenode/#chan'' ''./output/alice/freenode/#chan/2016-01-15.log''
   \<and> (makedirs sys fs ''./output/alice/freenode/#chan'' = (fs1, None)
       \<and> move sys fs1 ''./output/alice_freenode_#chan_20160115.log''
            ''./output/alice/freenode/#chan/2016-01-15.log'' = (fs2, None)
       \<longrightarrow> hier_step sys ''G'' ''alice_freenode_#chan_20160115.log'' fs out = Done fs2 out)
   \<and> hier_plan ''G'' ''alice_FreeNode_#Chan_20160115.log''
     = Relocate ''./output/alice/FreeNode/#Chan'' ''./output/alice/FreeNode/#Chan/2016-01-15.log''
   \<and> lower ''alice_FreeNode_#chan_20160115.log'' = ''alice_freenode_#chan_20160115.log''
   \<and> copy_loop sys [] [''alice_FreeNode_#chan_20160115.log''] fs 0 =
       (case copy2 sys fs ''alice_FreeNode_#chan_20160115.log''
               ''./output/alice_freenode_#chan_20160115.log'' of
          (fs1, Some e) \<Rightarrow> (fs1, 0, Some e)
        | (fs1, None) \<Rightarrow> (fs1, 1, None))
   \<and> (re_match globalRe f = Some m \<longrightarrow>
        (\<exists>u n w d e. m = [(''user'', u), (''network'', n), (''window'', w), (''date'', d)]
           \<and> f = u @ ''_'' @ n @ ''_'' @ w @ ''_'' @ d @ ''.log'' @ e
           \<and> (e = [] \<or> e = [newline])))
   \<and> (re_match globalRe f
         = Some [(''user'', u), (''network'', n), (''window'', w), (''date'', d)] \<longrightarrow>
        hier_plan ''G'' f =
          Relocate (''./output/'' @ u @ ''/'' @ n @ ''/'' @ w)
            (''./output/'' @ u @ ''/'' @ n @ ''/'' @ w @ ''/'' @ take 4 d @ ''-''
               @ take 2 (drop 4 d) @ ''-'' @ take 2 (drop 6 d) @ ''.log''))
   \<and> (hier_plan ''G'' f = Relocate path dst \<and> makedirs sys fs path = (fs1, None)
       \<and> move sys fs1 (''./output/'' @ f) dst = (fs2, None)
       \<longrightarrow> hier_step sys ''G'' f fs out = Done fs2 out)"
proof (intro conjI impI)
  assume a: "makedirs sys fs ''./output/alice/freenode/#chan'' = (fs1, None)
       \<and> move sys fs1 ''./output/alice_freenode_#chan_20160115.log''
            ''./output/alice/freenode/#chan/2016-01-15.log'' = (fs2, None)"
  from a have mk: "makedirs sys fs ''./output/alice/freenode/#chan'' = (fs1, None)" by simp
  from a have mv: "move sys fs1 (OUTDIR @ ''alice_freenode_#chan_20160115.log'')
            ''./output/alice/freenode/#chan/2016-01-15.log'' = (fs2, None)"
    by (simp add: OUTDIR_def)
  show "hier_step sys ''G'' ''alice_freenode_#chan_20160115.log'' fs out = Done fs2 out"
    by (rule hier_step_moves [OF alice_plan mk mv])
next
  assume "re_match globalRe f = Some m"
  from globalRe_match_full [OF this] obtain u n w d e where
    "m = [(''user'', u), (''network'', n), (''window'', w), (''date'', d)]"
    "f = u @ ''_'' @ n @ ''_'' @ w @ ''_'' @ d @ ''.log'' @ e" "e = [] \<or> e = [newline]"
    by (elim exE conjE)
  then show "\<exists>u n w d e. m = [(''user'', u), (''network'', n), (''window'', w), (''date'', d)]
           \<and> f = u @ ''_'' @ n @ ''_'' @ w @ ''_'' @ d @ ''.log'' @ e
           \<and> (e = [] \<or> e = [newline])"
    by (intro exI [of _ u] exI [of _ n] exI [of _ w] exI [of _ d] exI [of _ e] conjI)
next
  assume "re_match globalRe f
         = Some [(''user'', u), (''network'', n), (''window'', w), (''date'', d)]"
  then show "hier_plan ''G'' f =
          Relocate (''./output/'' @ u @ ''/'' @ n @ ''/'' @ w)
            (''./output/'' @ u @ ''/'' @ n @ ''/'' @ w @ ''/'' @ take 4 d @ ''-''
               @ take 2 (drop 4 d) @ ''-'' @ take 2 (drop 6 d) @ ''.log'')"
    by (rule global_plan_verbatim)
next
  assume a: "hier_plan ''G'' f = Relocate path dst \<and> makedirs sys fs path = (fs1, None)
       \<and> move sys fs1 (''./output/'' @ f) dst = (fs2, None)"
  then have "move sys fs1 (OUTDIR @ f) dst = (fs2, None)" by (simp add: OUTDIR_def)
  with a show "hier_step sys ''G'' f fs out = Done fs2 out"
    by (intro hier_step_moves [of "''G''" f path dst sys fs fs1 fs2 out]) simp_all
qed (rule alice_match alice_plan alice_mixed_plan alice_lower alice_staging)+

lemma alice_makedirs:
  "makedirs toy (staged ''alice_freenode_#chan_20160115.log'') ''./output/alice/freenode/#chan''
     = (\<lparr>files = [(''./output/alice_freenode_#chan_20160115.log'', ''[00:00:30] b'', a_stat)],
         dirs = [''./output/alice/freenode/#chan'']\<rparr>, None)"
  by code_simp

lemma alice_move:
  "move toy \<lparr>files = [(''./output/alice_freenode_#chan_20160115.log'', ''[00:00:30] b'', a_stat)],
         dirs = [''./output/alice/freenode/#chan'']\<rparr>
      ''./output/alice_freenode_#chan_20160115.log''
      ''./output/alice/freenode/#chan/2016-01-15.log''
     = (moved ''./output/alice/freenode/#chan''
          ''./output/alice/freenode/#chan/2016-01-15.log'', None)"
  by code_simp

lemma mixed_makedirs:
  "makedirs toy (staged ''alice_FreeNode_#Chan_20160115.log'') ''./output/alice/FreeNode/#Chan''
     = (\<lparr>files = [(''./output/alice_FreeNode_#Chan_20160115.log'', ''[00:00:30] b'', a_stat)],
         dirs = [''./output/alice/FreeNode/#Chan'']\<rparr>, None)"
  by code_simp

lemma mixed_move:
  "move toy \<lparr>files = [(''./output/alice_FreeNode_#Chan_20160115.log'', ''[00:00:30] b'', a_stat)],
         dirs = [''./output/alice/FreeNode/#Chan'']\<rparr>
      ''./output/alice_FreeNode_#Chan_20160115.log''
      ''./output/alice/FreeNode/#Chan/2016-01-15.log''
     = (moved ''./output/alice/FreeNode/#Chan''
          ''./output/alice/FreeNode/#Chan/2016-01-15.log'', None)"
  by code_simp

lemma take_20160115:
  "take 4 ''20160115'' @ ''-'' @ take 2 (drop 4 ''20160115'') @ ''-''
     @ take 2 (drop 6 ''20160115'') @ ''.log'' = ''2016-01-15.log''"
  by simp

theorem fields_are_moved_as_they_are_witness:
  "makedirs toy (staged ''alice_freenode_#chan_20160115.log'') ''./output/alice/freenode/#chan''
     = (\<lparr>files = [(''./output/alice_freenode_#chan_20160115.log'', ''[00:00:30] b'', a_stat)],
         dirs = [''./output/alice/freenode/#chan'']\<rparr>, None)
   \<and> move toy \<lparr>files = [(''./output/alice_freenode_#chan_20160115.log'', ''[00:00:30] b'', a_stat)],
         dirs = [''./output/alice/freenode/#chan'']\<rparr>
      ''./output/alice_freenode_#chan_20160115.log''
      ''./output/alice/freenode/#chan/2016-01-15.log''
     = (moved ''./output/alice/freenode/#chan''
          ''./output/alice/freenode/#chan/2016-01-15.log'', None)
   \<and> hier_step toy ''G'' ''alice_freenode_#chan_20160115.log''
        (staged ''alice_freenode_#chan_20160115.log'') []
     = Done (moved ''./output/alice/freenode/#chan''
               ''./output/alice/freenode/#chan/2016-01-15.log'') []
   \<and> re_match globalRe ''alice_FreeNode_#Chan_20160115.log''
     = Some [(''user'', ''alice''), (''network'', ''FreeNode''), (''window'', ''#Chan''),
             (''date'', ''20160115'')]
   \<and> hier_plan ''G'' ''alice_FreeNode_#Chan_20160115.log''
     = Relocate ''./output/alice/FreeNode/#Chan'' ''./output/alice/FreeNode/#Chan/2016-01-15.log''
   \<and> makedirs toy (staged ''alice_FreeNode_#Chan_20160115.log'') ''./output/alice/FreeNode/#Chan''
     = (\<lparr>files = [(''./output/alice_FreeNode_#Chan_20160115.log'', ''[00:00:30] b'', a_stat)],
         dirs = [''./output/alice/FreeNode/#Chan'']\<rparr>, None)
   \<and> move toy \<lparr>files = [(''./output/alice_FreeNode_#Chan_20160115.log'', ''[00:00:30] b'', a_stat)],
         dirs = [''./output/alice/FreeNode/#Chan'']\<rparr>
      ''./output/alice_FreeNode_#Chan_20160115.log''
      ''./output/alice/FreeNode/#Chan/2016-01-15.log''
     = (moved ''./output/alice/FreeNode/#Chan''
          ''./output/alice/FreeNode/#Chan/2016-01-15.log'', None)
   \<and> hier_step toy ''G'' ''alice_FreeNode_#Chan_20160115.log''
        (staged ''alice_FreeNode_#Chan_20160115.log'') []
     = Done (moved ''./output/alice/FreeNode/#Chan''
               ''./output/alice/FreeNode/#Chan/2016-01-15.log'') []"
proof -
  note t = fields_are_moved_as_they_are [where sys = toy and out = "[]"
      and f = "''alice_FreeNode_#Chan_20160115.log''"
      and u = "''alice''" and n = "''FreeNode''" and w = "''#Chan''" and d = "''20160115''"
      and path = "''./output/alice/FreeNode/#Chan''"
      and dst = "''./output/alice/FreeNode/#Chan/2016-01-15.log''"]
  have 1: "hier_step toy ''G'' ''alice_freenode_#chan_20160115.log''
        (staged ''alice_freenode_#chan_20160115.log'') []
     = Done (moved ''./output/alice/freenode/#chan''
               ''./output/alice/freenode/#chan/2016-01-15.log'') []"
    using t [where fs = "staged ''alice_freenode_#chan_20160115.log''"
        and ?fs1.0 = "\<lparr>files = [(''./output/alice_freenode_#chan_20160115.log'', ''[00:00:30] b'', a_stat)],
         dirs = [''./output/alice/freenode/#chan'']\<rparr>"
        and ?fs2.0 = "moved ''./output/alice/freenode/#chan''
               ''./output/alice/freenode/#chan/2016-01-15.log''"]
      alice_makedirs alice_move
    by simp
  have 2: "hier_plan ''G'' ''alice_FreeNode_#Chan_20160115.log''
     = Relocate ''./output/alice/FreeNode/#Chan'' ''./output/alice/FreeNode/#Chan/2016-01-15.log''"
    using t [where fs = undefined and ?fs1.0 = undefined and ?fs2.0 = undefined]
      alice_mixed_match take_20160115
    by simp
  have 3: "hier_step toy ''G'' ''alice_FreeNode_#Chan_20160115.log''
        (staged ''alice_FreeNode_#Chan_20160115.log'') []
     = Done (moved ''./output/alice/FreeNode/#Chan''
               ''./output/alice/FreeNode/#Chan/2016-01-15.log'') []"
    using t [where fs = "staged ''alice_FreeNode_#Chan_20160115.log''"
        and ?fs1.0 = "\<lparr>files = [(''./output/alice_FreeNode_#Chan_20160115.log'', ''[00:00:30] b'', a_stat)],
         dirs = [''./output/alice/FreeNode/#Chan'']\<rparr>"
        and ?fs2.0 = "moved ''./output/alice/FreeNode/#Chan''
               ''./output/alice/FreeNode/#Chan/2016-01-15.log''"]
      2 mixed_makedirs mixed_move
    by simp
  show ?thesis
    by (intro conjI alice_makedirs alice_move 1 alice_mixed_match 2 mixed_makedirs mixed_move 3)
qed

lemma bak_network_plan:
  "hier_plan ''N'' ''#chan_20160115.log.bak''
     = Relocate ''./output/#chan'' ''./output/#chan/2016-01-15.log''"
  by code_simp

lemma bak_user_plan:
  "hier_plan ''U'' ''freenode_#chan_20160115.log.bak''
     = Relocate ''./output/freenode/#chan'' ''./output/freenode/#chan/2016-01-15.log''"
  by code_simp

lemma bak_global_plan:
  "hier_plan ''G'' ''alice_freenode_#chan_20160115.log.bak''
     = Skip (nomatch_warning ''alice_freenode_#chan_20160115.log.bak'')"
  by code_simp

lemma old_network_plan:
  "hier_plan ''N'' ''#chan_20160115.log_old.log''
     = Relocate ''./output/#chan'' ''./output/#chan/2016-01-15.log''"
  by code_simp

lemma bak_network_step:
  "hier_step toy ''N'' ''#chan_20160115.log.bak'' (staged ''#chan_20160115.log.bak'') []
     = Done (moved ''./output/#chan'' ''./output/#chan/2016-01-15.log'') []"
  by code_simp

lemma bak_user_step:
  "hier_step toy ''U'' ''freenode_#chan_20160115.log.bak''
       (staged ''freenode_#chan_20160115.log.bak'') []
     = Done (moved ''./output/freenode/#chan'' ''./output/freenode/#chan/2016-01-15.log'') []"
  by code_simp

text \<open>
  C9: the Network and User patterns do not ask for the end of the name. A name that goes
  on after \<open>.log\<close> (here with \<open>.bak\<close>, or with \<open>_old.log\<close>) still matches in these two
  modes, window and date are taken from its beginning, and the file is moved to
  \<open>date.log\<close> in its directory without a warning: the rest of the name is gone. The
  Global pattern, which has the end anchor, does not match such a name.
\<close>

theorem unanchored_patterns_drop_the_tail:
  "hier_plan ''N'' ''#chan_20160115.log.bak''
     = Relocate ''./output/#chan'' ''./output/#chan/2016-01-15.log''
   \<and> hier_plan ''U'' ''freenode_#chan_20160115.log.bak''
     = Relocate ''./output/freenode/#chan'' ''./output/freenode/#chan/2016-01-15.log''
   \<and> hier_plan ''N'' ''#chan_20160115.log_old.log''
     = Relocate ''./output/#chan'' ''./output/#chan/2016-01-15.log''
   \<and> hier_step toy ''N'' ''#chan_20160115.log.bak'' (staged ''#chan_20160115.log.bak'') []
     = Done (moved ''./output/#chan'' ''./output/#chan/2016-01-15.log'') []
   \<and> hier_step toy ''U'' ''freenode_#chan_20160115.log.bak''
       (staged ''freenode_#chan_20160115.log.bak'') []
     = Done (moved ''./output/freenode/#chan'' ''./output/freenode/#chan/2016-01-15.log'') []
   \<and> hier_plan ''G'' ''alice_freenode_#chan_20160115.log.bak''
     = Skip (nomatch_warning ''alice_freenode_#chan_20160115.log.bak'')"
  by (intro conjI bak_network_plan bak_user_plan old_network_plan bak_network_step
        bak_user_step bak_global_plan)

lemma dir_exists_makedirs:
  "makedirs toy dir_exists ''./output/alice/freenode/#chan'' = (dir_exists, Some (OSError EEXIST))"
  by code_simp

lemma dir_exists_isdir: "isdir toy dir_exists ''./output/alice/freenode/#chan''"
  by code_simp

lemma dir_exists_move:
  "do_move toy (OUTDIR @ ''alice_freenode_#chan_20160115.log'')
      ''./output/alice/freenode/#chan/2016-01-15.log'' dir_exists []
     = Done (moved ''./output/alice/freenode/#chan''
               ''./output/alice/freenode/#chan/2016-01-15.log'') []"
  by code_simp

lemma in_the_way_makedirs:
  "makedirs toy file_in_the_way ''./output/alice/freenode/#chan''
     = (file_in_the_way, Some (OSError EEXIST))"
  by code_simp

lemma in_the_way_isdir: "\<not> isdir toy file_in_the_way ''./output/alice/freenode/#chan''"
  by code_simp

lemma in_the_way_listdir:
  "listdir toy file_in_the_way OUTDIR = Inr ([] @ ''alice_freenode_#chan_20160115.log'' # [''alice''])"
  by code_simp

theorem makedirs_failure_aborts_unless_directory_witness:
  "makedirs toy dir_exists ''./output/alice/freenode/#chan'' = (dir_exists, Some (OSError EEXIST))
   \<and> isdir toy dir_exists ''./output/alice/freenode/#chan''
   \<and> hier_step toy ''G'' ''alice_freenode_#chan_20160115.log'' dir_exists []
       = Done (moved ''./output/alice/freenode/#chan''
                 ''./output/alice/freenode/#chan/2016-01-15.log'') []
   \<and> makedirs toy file_in_the_way ''./output/alice/freenode/#chan''
       = (file_in_the_way, Some (OSError EEXIST))
   \<and> \<not> isdir toy file_in_the_way ''./output/alice/freenode/#chan''
   \<and> listdir toy file_in_the_way OUTDIR
       = Inr [''alice_freenode_#chan_20160115.log'', ''alice'']
   \<and> convertToHierarchy toy ''G'' file_in_the_way []
       = Raised (OSError EEXIST) file_in_the_way [''Rearranging logs into 1.6 hierarchy...'']"
  using makedirs_failure_aborts_unless_directory [OF alice_plan dir_exists_makedirs, of "[]"]
    makedirs_failure_aborts_unless_directory [OF alice_plan in_the_way_makedirs, of "[''Rearranging logs into 1.6 hierarchy...'']"
        "[''alice'']" file_in_the_way "[]" "[]"]
    dir_exists_makedirs dir_exists_isdir dir_exists_move
    in_the_way_makedirs in_the_way_isdir in_the_way_listdir
  by simp

subsection \<open>Running the rewriter a second time\<close>

lemma word_not_newline: "in_cset WordDash c \<Longrightarrow> in_cset AnyChar c"
  by (auto simp: is_word_def is_lower_def is_upper_def is_digit_def newline_def)

lemma digit_not_newline: "is_digit c \<Longrightarrow> in_cset AnyChar c"
  by (auto simp: is_digit_def newline_def)

lemma globalRe_rmatch:
  assumes "rmatch (map snd globalRe) f = Some ms"
  shows "\<exists>u n w d e. ms = [u, ''_'', n, ''_'', w, ''_'', d, ''.'', ''l'', ''o'', ''g'', []]
     \<and> f = u @ ''_'' @ n @ ''_'' @ w @ ''_'' @ d @ ''.log'' @ e
     \<and> (e = [] \<or> e = [newline])
     \<and> u \<noteq> [] \<and> list_all (in_cset AnyChar) u
     \<and> n \<noteq> [] \<and> list_all (in_cset WordDash) n
     \<and> w \<noteq> [] \<and> list_all (in_cset AnyChar) w
     \<and> d \<noteq> [] \<and> list_all is_digit d"
proof -
  from rmatch_fits [OF assms] have "fits (map snd globalRe) ms f" .
  then obtain u n w d e where
    "ms = [u, ''_'', n, ''_'', w, ''_'', d, ''.'', ''l'', ''o'', ''g'', []]"
    "f = u @ ''_'' @ n @ ''_'' @ w @ ''_'' @ d @ ''.log'' @ e"
    "e = [] \<or> e = [newline]"
    "u \<noteq> []" "list_all (in_cset AnyChar) u" "n \<noteq> []" "list_all (in_cset WordDash) n"
    "w \<noteq> []" "list_all (in_cset AnyChar) w" "d \<noteq> []" "list_all is_digit d"
    by (clarsimp simp: globalRe_def dot_log_def lit_def list_all_iff)
  then show ?thesis
    by (intro exI [of _ u] exI [of _ n] exI [of _ w] exI [of _ d] exI [of _ e] conjI)
qed

lemma global_pieces: "map snd globalRe = P PlusLazy AnyChar # global_rest"
  by (simp add: global_rest_def globalRe_def)

lemma global_rest_fits:
  assumes "n \<noteq> []" "list_all (in_cset WordDash) n" "w \<noteq> []" "list_all (in_cset AnyChar) w"
    "d \<noteq> []" "list_all is_digit d" "e = [] \<or> e = [newline]"
  shows "fits global_rest [''_'', n, ''_'', w, ''_'', d, ''.'', ''l'', ''o'', ''g'', []]
     (''_'' @ n @ ''_'' @ w @ ''_'' @ d @ ''.log'' @ e)"
  using assms
  by (simp add: global_rest_def globalRe_def dot_log_def lit_def list_all_iff)

lemma global_user_prefix_nomatch:
  assumes f: "re_match globalRe f = Some m" and u: "group m ''user'' = Inr u"
    and p: "u = p @ q"
  shows "re_match globalRe p = None"
proof (rule ccontr)
  assume "re_match globalRe p \<noteq> None"
  then obtain ms' where ms': "rmatch (map snd globalRe) p = Some ms'"
    by (auto simp: re_match_def)
  from f obtain ms where ms: "rmatch (map snd globalRe) f = Some ms"
    "m = named (map fst globalRe) ms"
    by (auto simp: re_match_def)
  from globalRe_rmatch [OF ms(1)] obtain u0 n w d e where
    m0: "ms = [u0, ''_'', n, ''_'', w, ''_'', d, ''.'', ''l'', ''o'', ''g'', []]"
    and f0: "f = u0 @ ''_'' @ n @ ''_'' @ w @ ''_'' @ d @ ''.log'' @ e"
    and e: "e = [] \<or> e = [newline]"
    and u0: "list_all (in_cset AnyChar) u0"
    and n: "n \<noteq> []" "list_all (in_cset WordDash) n"
    and w: "list_all (in_cset AnyChar) w"
    and d: "d \<noteq> []" "list_all is_digit d"
    by (elim exE conjE)
  from ms(2) m0 u have uu: "u0 = u"
    by (simp add: globalRe_def dot_log_def lit_def group_def)
  from globalRe_rmatch [OF ms'] obtain u' n' w' d' e' where
    p0: "p = u' @ ''_'' @ n' @ ''_'' @ w' @ ''_'' @ d' @ ''.log'' @ e'"
    and e': "e' = [] \<or> e' = [newline]"
    and u': "u' \<noteq> []"
    and n': "n' \<noteq> []" "list_all (in_cset WordDash) n'"
    and w': "w' \<noteq> []" "list_all (in_cset AnyChar) w'"
    by (elim exE conjE)
  from u0 uu p have pq: "list_all (in_cset AnyChar) p" "list_all (in_cset AnyChar) q" by simp_all
  from pq(1) p0 have "newline \<notin> set e'" by (auto simp: list_all_iff)
  with e' have e'0: "e' = []" by auto
  from pq(1) p0 have pd: "list_all (in_cset AnyChar) (d' @ ''.log'')"
    by (simp add: list_all_iff)
  define W where "W = w' @ ''_'' @ d' @ ''.log'' @ q @ ''_'' @ n @ ''_'' @ w"
  have nn: "list_all (in_cset AnyChar) n"
    using n(2) word_not_newline by (auto simp: list_all_iff)
  have us: "in_cset AnyChar (CHR ''_'')" by (simp add: newline_def)
  have W: "W \<noteq> []" "list_all (in_cset AnyChar) W"
    using w' pd pq(2) nn w us by (simp_all add: W_def)
  have fr: "fits global_rest [''_'', n', ''_'', W, ''_'', d, ''.'', ''l'', ''o'', ''g'', []]
     (''_'' @ n' @ ''_'' @ W @ ''_'' @ d @ ''.log'' @ e)"
    by (rule global_rest_fits [OF n' W d e])
  have dr: "drop (length u') f = ''_'' @ n' @ ''_'' @ W @ ''_'' @ d @ ''.log'' @ e"
    unfolding f0 uu p p0 e'0 W_def by simp
  from fits_rmatch [OF fr] obtain x where
    x: "rmatch global_rest (drop (length u') f) = Some x"
    unfolding dr ..
  have k: "0 < length u'" "length u' < length u"
    using u' unfolding p p0 by simp_all
  from ms(1) m0 uu have "rmatch (P PlusLazy AnyChar # global_rest) f
      = Some (u # [''_'', n, ''_'', w, ''_'', d, ''.'', ''l'', ''o'', ''g'', []])"
    by (simp add: global_pieces)
  from lazy_plus_first [OF this k] x show False by simp
qed

lemma user_network_nomatch:
  assumes f: "re_match userRe f = Some m" and n: "group m ''network'' = Inr n"
  shows "re_match userRe n = None"
proof (rule ccontr)
  assume "re_match userRe n \<noteq> None"
  then obtain m' where m': "re_match userRe n = Some m'" by auto
  from f obtain ms where ms: "rmatch (map snd userRe) f = Some ms"
    "m = named (map fst userRe) ms"
    by (auto simp: re_match_def)
  from rmatch_fits [OF ms(1)] have "fits (map snd userRe) ms f" .
  then obtain n0 w d where m0: "ms = [n0, ''_'', w, ''_'', d, ''.'', ''l'', ''o'', ''g'']"
    and n0: "list_all (in_cset WordDash) n0"
    by (clarsimp simp: userRe_def dot_log_def lit_def list_all_iff)
  from ms(2) m0 n have "n0 = n" by (simp add: userRe_def dot_log_def lit_def group_def)
  with n0 have "CHR ''.'' \<notin> set n"
    by (auto simp: list_all_iff is_word_def is_lower_def is_upper_def is_digit_def)
  moreover from userRe_match [OF m'] have "CHR ''.'' \<in> set n" by auto
  ultimately show False by simp
qed

lemma user_network_no_slash:
  assumes f: "re_match userRe f = Some m" and n: "group m ''network'' = Inr n"
  shows "CHR ''/'' \<notin> set n"
proof -
  from f obtain ms where ms: "rmatch (map snd userRe) f = Some ms"
    "m = named (map fst userRe) ms"
    by (auto simp: re_match_def)
  from rmatch_fits [OF ms(1)] have "fits (map snd userRe) ms f" .
  then obtain n0 w d where m0: "ms = [n0, ''_'', w, ''_'', d, ''.'', ''l'', ''o'', ''g'']"
    and n0: "list_all (in_cset WordDash) n0"
    by (clarsimp simp: userRe_def dot_log_def lit_def list_all_iff)
  from ms(2) m0 n have "n0 = n" by (simp add: userRe_def dot_log_def lit_def group_def)
  with n0 show ?thesis
    by (auto simp: list_all_iff is_word_def is_lower_def is_upper_def is_digit_def)
qed

lemma takeWhile_slash:
  "takeWhile (\<lambda>c. c \<noteq> CHR ''/'') (u @ ''/'' @ r) = takeWhile (\<lambda>c. c \<noteq> CHR ''/'') u"
  by (induction u) simp_all

lemma top_of_nomatch:
  assumes "logType \<noteq> ''N''" and "top_of logType f = Some e"
  shows "re_match (myRe logType) e = None"
proof (cases "logType = ''U''")
  case True
  then have re: "myRe logType = userRe" by (simp add: myRe_def)
  from assms(2) obtain m where m: "re_match userRe f = Some m"
    by (auto simp: top_of_def hier_plan_def re split: option.splits)
  from userRe_match [OF m] obtain n w d post where
    m0: "m = [(''network'', n), (''window'', w), (''date'', d)]" by (elim exE conjE)
  then have g: "group m ''network'' = Inr n" by (simp add: group_def)
  from assms(2) m m0 True have "e = takeWhile (\<lambda>c. c \<noteq> CHR ''/'') (n @ ''/'' @ w)"
    using re
    by (simp add: top_of_def hier_plan_def group_def group_or_empty_def myFormat_def
        userDirFormat_def)
  also have "\<dots> = takeWhile (\<lambda>c. c \<noteq> CHR ''/'') n" by (rule takeWhile_slash)
  also have "\<dots> = n" using user_network_no_slash [OF m g] by (auto simp: takeWhile_eq_all_conv)
  finally have "e = n" .
  with user_network_nomatch [OF m g] re show ?thesis by simp
next
  case False
  with assms(1) have re: "myRe logType = globalRe" by (simp add: myRe_def)
  from assms(2) obtain m where m: "re_match globalRe f = Some m"
    by (auto simp: top_of_def hier_plan_def re split: option.splits)
  from globalRe_match [OF m] obtain u n w d post where
    m0: "m = [(''user'', u), (''network'', n), (''window'', w), (''date'', d)]"
    by (elim exE conjE)
  then have g: "group m ''user'' = Inr u" by (simp add: group_def)
  from assms(1,2) m m0 False
  have "e = takeWhile (\<lambda>c. c \<noteq> CHR ''/'') (u @ ''/'' @ n @ ''/'' @ w)"
    using re
    by (simp add: top_of_def hier_plan_def group_def group_or_empty_def myFormat_def
        globalDirFormat_def)
  also have "\<dots> = takeWhile (\<lambda>c. c \<noteq> CHR ''/'') u" by (rule takeWhile_slash)
  finally have "e = takeWhile (\<lambda>c. c \<noteq> CHR ''/'') u" .
  then have "u = e @ dropWhile (\<lambda>c. c \<noteq> CHR ''/'') u" by simp
  from global_user_prefix_nomatch [OF m g this] re show ?thesis by simp
qed

text \<open>
  C8, as amended: in Global and in User mode, the directory that a run of the rewriter
  puts a file under is never matched by the pattern of the mode. So a second run in such a
  mode, on a tree whose entries at the top are names the pattern does not match and
  directories made by the first run, moves nothing: it ends normally on the filesystem it
  started from, having printed one warning for each entry. In every mode that is what a
  run does when no entry matches.
\<close>

theorem second_run_warns_and_moves_nothing:
  assumes "listdir sys fs OUTDIR = Inr entries"
    and "\<forall>e\<in>set entries. re_match (myRe logType) e = None
           \<or> (logType \<noteq> ''N'' \<and> (\<exists>f. top_of logType f = Some e))"
  shows "convertToHierarchy sys logType fs out =
     Done fs (out @ [''Rearranging logs into 1.6 hierarchy...'']
                  @ map nomatch_warning entries @ [''Done!''])"
proof -
  from assms(2) have "list_all (\<lambda>e. re_match (myRe logType) e = None) entries"
    using top_of_nomatch by (auto simp: list_all_iff)
  then have "hier_loop sys logType entries fs (out @ [''Rearranging logs into 1.6 hierarchy...''])
      = Done fs (out @ [''Rearranging logs into 1.6 hierarchy...''] @ map nomatch_warning entries)"
    by (simp add: hier_loop_nomatch)
  with assms(1) show ?thesis by (simp add: convertToHierarchy_def)
qed

lemma flat_tree_run:
  "convertToHierarchy toy ''G'' flat_tree []
     = Done rearranged [''Rearranging logs into 1.6 hierarchy...'',
          nomatch_warning ''notes.log'', ''Done!'']"
  by code_simp

lemma alice_top: "top_of ''G'' ''alice_freenode_#chan_20160115.log'' = Some ''alice''"
  by code_simp

theorem second_run_warns_and_moves_nothing_witness:
  "convertToHierarchy toy ''G'' flat_tree []
     = Done rearranged [''Rearranging logs into 1.6 hierarchy...'',
          nomatch_warning ''notes.log'', ''Done!'']
   \<and> listdir toy rearranged OUTDIR = Inr [''notes.log'', ''alice'']
   \<and> re_match (myRe ''G'') ''notes.log'' = None
   \<and> top_of ''G'' ''alice_freenode_#chan_20160115.log'' = Some ''alice''
   \<and> convertToHierarchy toy ''G'' rearranged [] =
       Done rearranged
         [''Rearranging logs into 1.6 hierarchy...'', nomatch_warning ''notes.log'',
          nomatch_warning ''alice'', ''Done!'']"
proof -
  have "''G'' \<noteq> ''N'' \<and> (\<exists>f. top_of ''G'' f = Some ''alice'')"
    by (intro conjI exI [of _ "''alice_freenode_#chan_20160115.log''"] alice_top) simp
  with notes_nomatch
  have h: "\<forall>e\<in>set [''notes.log'', ''alice'']. re_match (myRe ''G'') e = None
           \<or> (''G'' \<noteq> ''N'' \<and> (\<exists>f. top_of ''G'' f = Some e))"
    by simp
  have "convertToHierarchy toy ''G'' rearranged [] =
       Done rearranged
         ([] @ [''Rearranging logs into 1.6 hierarchy...'']
             @ map nomatch_warning [''notes.log'', ''alice''] @ [''Done!''])"
    by (rule second_run_warns_and_moves_nothing [OF rearranged_listdir h])
  then have "convertToHierarchy toy ''G'' rearranged [] =
       Done rearranged
         [''Rearranging logs into 1.6 hierarchy...'', nomatch_warning ''notes.log'',
          nomatch_warning ''alice'', ''Done!'']"
    by simp
  then show ?thesis
    by (intro conjI flat_tree_run rearranged_listdir notes_nomatch alice_top)
qed

lemma network_first_run:
  "convertToHierarchy toy ''N'' (staged ''a_1.log_20160115.log'') []
     = Done (moved ''./output/a_1.log'' ''./output/a_1.log/2016-01-15.log'')
         [''Rearranging logs into 1.6 hierarchy...'', ''Done!'']"
  by code_simp

lemma network_listdir:
  "listdir toy (moved ''./output/a_1.log'' ''./output/a_1.log/2016-01-15.log'') OUTDIR
     = Inr [''a_1.log'']"
  by code_simp

lemma network_dir_match:
  "re_match (myRe ''N'') ''a_1.log'' = Some [(''window'', ''a''), (''date'', ''1'')]"
  by code_simp

lemma network_dir_plan:
  "hier_plan ''N'' ''a_1.log'' = Relocate ''./output/a'' ''./output/a/1--.log''"
  by code_simp

lemma network_second_run:
  "convertToHierarchy toy ''N'' (moved ''./output/a_1.log'' ''./output/a_1.log/2016-01-15.log'') []
     = Done \<lparr>files = [(''./output/a/1--.log/2016-01-15.log'', ''[00:00:30] b'', a_stat)],
              dirs = [''./output/a'', ''./output/a/1--.log'']\<rparr>
         [''Rearranging logs into 1.6 hierarchy...'', ''Done!'']"
  by code_simp

lemma network_file_gone:
  "fopen toy (moved ''./output/a_1.log'' ''./output/a_1.log/2016-01-15.log'')
      ''./output/a_1.log/2016-01-15.log'' = Inr ''[00:00:30] b''"
  "fopen toy \<lparr>files = [(''./output/a/1--.log/2016-01-15.log'', ''[00:00:30] b'', a_stat)],
              dirs = [''./output/a'', ''./output/a/1--.log'']\<rparr>
      ''./output/a_1.log/2016-01-15.log'' = Inl (IOError ENOENT)"
  by code_simp+

text \<open>
  C8, as stated, fails in Network mode. The first run moves \<open>a_1.log_20160115.log\<close> to
  \<open>2016-01-15.log\<close> in the directory \<open>a_1.log\<close>; the Network pattern matches the name
  of that directory (window \<open>a\<close>, date \<open>1\<close>), and the second run moves the directory,
  with the file in it, to \<open>a/1--.log\<close>, without a warning.
\<close>

theorem network_second_run_moves_a_directory:
  "convertToHierarchy toy ''N'' (staged ''a_1.log_20160115.log'') []
     = Done (moved ''./output/a_1.log'' ''./output/a_1.log/2016-01-15.log'')
         [''Rearranging logs into 1.6 hierarchy...'', ''Done!'']
   \<and> listdir toy (moved ''./output/a_1.log'' ''./output/a_1.log/2016-01-15.log'') OUTDIR
     = Inr [''a_1.log'']
   \<and> re_match (myRe ''N'') ''a_1.log'' = Some [(''window'', ''a''), (''date'', ''1'')]
   \<and> hier_plan ''N'' ''a_1.log'' = Relocate ''./output/a'' ''./output/a/1--.log''
   \<and> convertToHierarchy toy ''N''
        (moved ''./output/a_1.log'' ''./output/a_1.log/2016-01-15.log'') []
     = Done \<lparr>files = [(''./output/a/1--.log/2016-01-15.log'', ''[00:00:30] b'', a_stat)],
              dirs = [''./output/a'', ''./output/a/1--.log'']\<rparr>
         [''Rearranging logs into 1.6 hierarchy...'', ''Done!'']
   \<and> fopen toy (moved ''./output/a_1.log'' ''./output/a_1.log/2016-01-15.log'')
        ''./output/a_1.log/2016-01-15.log'' = Inr ''[00:00:30] b''
   \<and> fopen toy \<lparr>files = [(''./output/a/1--.log/2016-01-15.log'', ''[00:00:30] b'', a_stat)],
              dirs = [''./output/a'', ''./output/a/1--.log'']\<rparr>
        ''./output/a_1.log/2016-01-15.log'' = Inl (IOError ENOENT)"
  by (intro conjI network_first_run network_listdir network_dir_match network_dir_plan
      network_second_run network_file_gone)

subsection \<open>The metadata of a merged file\<close>

lemma map_of_filter_other:
  "q \<noteq> p \<Longrightarrow> map_of (filter (\<lambda>e. fst e \<noteq> p) xs) q = map_of xs q"
  by (induction xs) auto

lemma toy_copystat_spec:
  "copystat toy fs src dst = (fs', None) \<Longrightarrow> os_stat toy fs' dst = os_stat toy fs src"
  by (auto simp: toy_def toy_copystat_def toy_stat_def toy_put_def
      split: option.splits prod.splits)

lemma toy_fwrite_frame:
  "fwrite toy fs p c = (fs', e) \<Longrightarrow> q \<noteq> p \<Longrightarrow> os_stat toy fs' q = os_stat toy fs q"
  by (auto simp: toy_def toy_fwrite_def toy_stat_def toy_put_def map_of_filter_other)

text \<open>
  C4: on a filesystem where \<open>copystat\<close> gives the target the metadata of the source and
  writing a file leaves the metadata of the other files alone, the merged file of a pair
  \<open>(f1, f2)\<close>, at the output root under the lowercase name of \<open>f1\<close>, ends with the
  metadata (mode and modification time) that \<open>f2\<close> had.
\<close>

theorem merged_file_has_second_files_stat:
  assumes copystat_spec:
      "\<And>fs src dst fs'. copystat sys fs src dst = (fs', None) \<Longrightarrow>
         os_stat sys fs' dst = os_stat sys fs src"
    and fwrite_frame:
      "\<And>fs p c fs' e q. fwrite sys fs p c = (fs', e) \<Longrightarrow> q \<noteq> p \<Longrightarrow>
         os_stat sys fs' q = os_stat sys fs q"
    and other: "f2 \<noteq> OUTDIR @ lower f1"
    and ran: "merge_one sys [f1, f2] fs out = Done fs' out'"
  shows "os_stat sys fs' (OUTDIR @ lower f1) = os_stat sys fs f2"
proof -
  from ran obtain content fsw where
    w: "fwrite sys fs (OUTDIR @ lower f1) content = (fsw, None)"
    and c: "copystat sys fsw f2 (OUTDIR @ lower f1) = (fs', None)"
    by (auto simp: merge_one_def split: sum.splits prod.splits option.splits)
  from c have "os_stat sys fs' (OUTDIR @ lower f1) = os_stat sys fsw f2"
    by (rule copystat_spec)
  also from w other have "os_stat sys fsw f2 = os_stat sys fs f2"
    by (rule fwrite_frame)
  finally show ?thesis .
qed

lemma two_logs_other: "''foo.log'' \<noteq> OUTDIR @ lower ''Foo.log''"
  by code_simp

lemma two_logs_stats:
  "os_stat toy two_logs ''foo.log'' = Some b_stat"
  "os_stat toy two_logs ''Foo.log'' = Some a_stat"
  "a_stat \<noteq> b_stat"
  by code_simp+

theorem merged_file_has_second_files_stat_witness:
  "''foo.log'' \<noteq> OUTDIR @ lower ''Foo.log''
   \<and> merge_one toy [''Foo.log'', ''foo.log''] two_logs []
       = Done two_logs_merged [line_warning (''junk'' @ [newline])]
   \<and> os_stat toy two_logs ''Foo.log'' = Some a_stat
   \<and> os_stat toy two_logs ''foo.log'' = Some b_stat
   \<and> a_stat \<noteq> b_stat
   \<and> os_stat toy two_logs_merged (OUTDIR @ lower ''Foo.log'') = Some b_stat"
  using merged_file_has_second_files_stat [of toy "''foo.log''" "''Foo.log''" two_logs "[]" two_logs_merged
        "[line_warning (''junk'' @ [newline])]", OF toy_copystat_spec toy_fwrite_frame
        two_logs_other two_logs_merge]
    two_logs_other two_logs_merge two_logs_stats
  by simp

subsection \<open>The input filter\<close>

lemma endswith_iff: "endswith s suf \<longleftrightarrow> (\<exists>p. s = p @ suf)"
proof
  assume "endswith s suf"
  then have "s = take (length s - length suf) s @ suf"
    by (metis append_take_drop_id endswith_def)
  then show "\<exists>p. s = p @ suf" ..
next
  assume "\<exists>p. s = p @ suf"
  then show "endswith s suf" by (auto simp: endswith_def)
qed

text \<open>
  C10: the input filter keeps exactly the directory entries whose name ends with the
  three characters \<open>log\<close>, in their order; no dot is asked for, so \<open>backlog\<close> and
  \<open>catalog\<close> are inputs, and a name that does not end with \<open>log\<close> is not.
\<close>

theorem logfiles_of_ends_with_log:
  "logfiles_of filenames = filter (\<lambda>x. \<exists>p. x = p @ ''log'') filenames
   \<and> logfiles_of [''backlog'', ''catalog'', ''a.log'', ''a.logs'', ''notes.txt'']
       = [''backlog'', ''catalog'', ''a.log'']"
  by (simp add: logfiles_of_def endswith_iff)

end
